theory Spec2Isabelle
  imports
    Complex_Main
    "HOL-Library.Char_ord"
    "HOL-Library.List_Lexorder"
    "HOL-Library.Product_Lexorder"
begin

section \<open>Retention manager: the DatabaseService of the clipboard history\<close>

text \<open>
  The persistence service keeps clipboard items either in an IndexedDB object store
  (key path \<open>id\<close>, index \<open>by-timestamp\<close>) or, when the database could not be
  opened, in an array under one localStorage key. Strings are lists of 8-bit
  characters, timestamps and limits are integers (JavaScript numbers holding
  epoch milliseconds and counts). Storage operations other than the key constraint of
  \<open>add\<close> are taken to succeed.
\<close>

record ItemMetadata =
  appName :: "string option"
  windowTitle :: "string option"
  url :: "string option"

record ClipboardItem =
  item_id :: string
  content :: string
  type :: string
  timestamp :: int
  source :: "string option"
  category :: "string option"
  categories :: "string list option"
  isPinned :: "bool option"
  metadata :: "ItemMetadata option"

record Settings =
  maxItems :: int
  autoDeleteDays :: int
  shortcut :: string
  privacyMode :: bool
  passwordLock :: bool
  theme :: string

text \<open>The opened database: the object stores \<open>clipboardItems\<close> and \<open>settings\<close>
  (the latter holds at most the record with key \<open>main\<close>).\<close>

record IDB =
  clipboardItems :: "ClipboardItem list"
  settings :: "Settings option"

text \<open>\<open>db\<close> is the field \<open>this.db\<close> (null after three failed attempts to open
  IndexedDB); \<open>localStorage\<close> is the array stored under \<open>clipflow-clipboardItems\<close>.\<close>

record DatabaseService =
  db :: "IDB option"
  localStorage :: "ClipboardItem list"

datatype error = NotInitialized | ConstraintError

subsection \<open>The object store\<close>

text \<open>An object store holds one record per key. It is represented by the list of its
  records; every read of the service goes through the \<open>by-timestamp\<close> index, which
  returns the records by ascending timestamp and, among equal timestamps, by ascending
  primary key.\<close>

definition idb_keys :: "ClipboardItem list \<Rightarrow> string set" where
  "idb_keys xs = item_id ` set xs"

definition idb_add :: "ClipboardItem \<Rightarrow> ClipboardItem list \<Rightarrow> error + ClipboardItem list" where
  "idb_add x xs = (if item_id x \<in> idb_keys xs then Inl ConstraintError else Inr (xs @ [x]))"

definition idb_put :: "ClipboardItem \<Rightarrow> ClipboardItem list \<Rightarrow> ClipboardItem list" where
  "idb_put x xs =
     (if item_id x \<in> idb_keys xs
      then map (\<lambda>y. if item_id y = item_id x then x else y) xs
      else xs @ [x])"

definition idb_delete :: "string \<Rightarrow> ClipboardItem list \<Rightarrow> ClipboardItem list" where
  "idb_delete k xs = filter (\<lambda>y. item_id y \<noteq> k) xs"

definition idb_index_by_timestamp :: "ClipboardItem list \<Rightarrow> ClipboardItem list" where
  "idb_index_by_timestamp xs = sort_key (\<lambda>i. (timestamp i, item_id i)) xs"

subsection \<open>Array helpers of JavaScript\<close>

text \<open>\<open>Array.prototype.sort\<close> with the comparator \<open>(a, b) => b.timestamp - a.timestamp\<close>:
  a stable sort by descending timestamp.\<close>

definition sort_newest_first :: "ClipboardItem list \<Rightarrow> ClipboardItem list" where
  "sort_newest_first xs = sort_key (\<lambda>i. - timestamp i) xs"

text \<open>\<open>xs.slice(start)\<close>: a negative start counts from the end.\<close>

definition js_slice_from :: "int \<Rightarrow> 'a list \<Rightarrow> 'a list" where
  "js_slice_from start xs =
     (if start < 0 then drop (nat (max (int (length xs) + start) 0)) xs
      else drop (nat start) xs)"

fun findIndex :: "('a \<Rightarrow> bool) \<Rightarrow> 'a list \<Rightarrow> nat option" where
  "findIndex P [] = None"
| "findIndex P (x # xs) =
     (if P x then Some 0 else map_option Suc (findIndex P xs))"

text \<open>\<open>a || b\<close> on an optional string: the empty string and undefined are falsy.\<close>

definition js_or :: "string option \<Rightarrow> string option \<Rightarrow> string option" where
  "js_or a b = (case a of None \<Rightarrow> b | Some s \<Rightarrow> if s = [] then b else Some s)"

subsection \<open>The service's operations\<close>

definition getClipboardItems :: "nat \<Rightarrow> DatabaseService \<Rightarrow> ClipboardItem list" where
  "getClipboardItems limit s =
     (case db s of
        None \<Rightarrow> take limit (localStorage s)
      | Some d \<Rightarrow> take limit (sort_newest_first (idb_index_by_timestamp (clipboardItems d))))"

definition findClipboardItemByContent :: "string \<Rightarrow> DatabaseService \<Rightarrow> ClipboardItem option" where
  "findClipboardItemByContent c s =
     (case db s of
        None \<Rightarrow> find (\<lambda>item. content item = c) (localStorage s)
      | Some d \<Rightarrow> find (\<lambda>item. content item = c) (getClipboardItems 1000 s))"

definition updateClipboardItem :: "ClipboardItem \<Rightarrow> DatabaseService \<Rightarrow> DatabaseService" where
  "updateClipboardItem item s =
     (case db s of
        None \<Rightarrow>
          (case findIndex (\<lambda>i. item_id i = item_id item) (localStorage s) of
             Some index \<Rightarrow> s\<lparr>localStorage := (localStorage s)[index := item]\<rparr>
           | None \<Rightarrow> s)
      | Some d \<Rightarrow> s\<lparr>db := Some (d\<lparr>clipboardItems := idb_put item (clipboardItems d)\<rparr>)\<rparr>)"

definition deleteClipboardItem :: "string \<Rightarrow> DatabaseService \<Rightarrow> DatabaseService" where
  "deleteClipboardItem k s =
     (case db s of
        None \<Rightarrow> s\<lparr>localStorage := filter (\<lambda>i. item_id i \<noteq> k) (localStorage s)\<rparr>
      | Some d \<Rightarrow> s\<lparr>db := Some (d\<lparr>clipboardItems := idb_delete k (clipboardItems d)\<rparr>)\<rparr>)"

definition defaultSettings :: Settings where
  "defaultSettings =
     \<lparr>maxItems = 500, autoDeleteDays = 30, shortcut = ''Ctrl+Shift+V'',
      privacyMode = False, passwordLock = False, theme = ''dark''\<rparr>"

text \<open>\<open>getSettings\<close> stores the defaults when the settings store is empty.\<close>

definition getSettings :: "DatabaseService \<Rightarrow> error + (Settings \<times> DatabaseService)" where
  "getSettings s =
     (case db s of
        None \<Rightarrow> Inl NotInitialized
      | Some d \<Rightarrow>
          (case settings d of
             None \<Rightarrow> Inr (defaultSettings, s\<lparr>db := Some (d\<lparr>settings := Some defaultSettings\<rparr>)\<rparr>)
           | Some st \<Rightarrow> Inr (st, s)))"

text \<open>An item is protected when it is pinned or carries at least one category.\<close>

definition isProtectedItem :: "ClipboardItem \<Rightarrow> bool" where
  "isProtectedItem item \<longleftrightarrow>
     isPinned item = Some True \<or>
     (case categories item of None \<Rightarrow> False | Some cs \<Rightarrow> 0 < length cs)"

text \<open>The two loops of \<open>cleanupOldItems\<close>, each deleting the listed items by id.\<close>

definition deleteAll :: "ClipboardItem list \<Rightarrow> DatabaseService \<Rightarrow> DatabaseService" where
  "deleteAll itemsToDelete s = fold (\<lambda>item. deleteClipboardItem (item_id item)) itemsToDelete s"

text \<open>First pass: items beyond the maximum. \<open>items\<close> is the list read at the start.\<close>

definition countPass :: "Settings \<Rightarrow> ClipboardItem list \<Rightarrow> DatabaseService \<Rightarrow> DatabaseService" where
  "countPass st items s =
     (if int (length items) > maxItems st
      then deleteAll (js_slice_from (maxItems st) (filter (\<lambda>item. \<not> isProtectedItem item) items)) s
      else s)"

text \<open>Second pass: items older than the cut-off; \<open>now\<close> is the value of \<open>Date.now()\<close>.\<close>

definition cutoffDate :: "Settings \<Rightarrow> int \<Rightarrow> int" where
  "cutoffDate st now = now - autoDeleteDays st * 24 * 60 * 60 * 1000"

definition agePass :: "Settings \<Rightarrow> int \<Rightarrow> ClipboardItem list \<Rightarrow> DatabaseService \<Rightarrow> DatabaseService" where
  "agePass st now items s =
     deleteAll (filter (\<lambda>item. timestamp item < cutoffDate st now \<and> \<not> isProtectedItem item) items) s"

definition cleanupOldItems :: "int \<Rightarrow> DatabaseService \<Rightarrow> error + DatabaseService" where
  "cleanupOldItems now s =
     (case db s of
        None \<Rightarrow> Inl NotInitialized
      | Some _ \<Rightarrow>
          (case getSettings s of
             Inl e \<Rightarrow> Inl e
           | Inr (st, s1) \<Rightarrow>
               (let items = getClipboardItems 1000 s1
                in Inr (agePass st now items (countPass st items s1)))))"

text \<open>The merged record of the duplicate path: the existing record with the new
  timestamp, and the new source and type when they are truthy.\<close>

definition mergeItem :: "ClipboardItem \<Rightarrow> ClipboardItem \<Rightarrow> ClipboardItem" where
  "mergeItem existingItem item =
     existingItem\<lparr>timestamp := timestamp item,
                  source := js_or (source item) (source existingItem),
                  type := (if type item = [] then type existingItem else type item)\<rparr>"

definition addClipboardItem :: "int \<Rightarrow> ClipboardItem \<Rightarrow> DatabaseService \<Rightarrow> error + DatabaseService" where
  "addClipboardItem now item s =
     (case findClipboardItemByContent (content item) s of
        Some existingItem \<Rightarrow>
          (let updatedItem = mergeItem existingItem item
           in case db s of
                None \<Rightarrow>
                  (case findIndex (\<lambda>i. item_id i = item_id existingItem) (localStorage s) of
                     Some index \<Rightarrow>
                       (let items1 = (localStorage s)[index := updatedItem];
                            items2 = take index items1 @ drop (Suc index) items1
                        in Inr (s\<lparr>localStorage := updatedItem # items2\<rparr>))
                   | None \<Rightarrow> Inr s)
              | Some _ \<Rightarrow> Inr (updateClipboardItem updatedItem s))
      | None \<Rightarrow>
          (case db s of
             None \<Rightarrow> Inr (s\<lparr>localStorage := take 100 (item # localStorage s)\<rparr>)
           | Some d \<Rightarrow>
               (case idb_add item (clipboardItems d) of
                  Inl e \<Rightarrow> Inl e
                | Inr xs \<Rightarrow> cleanupOldItems now (s\<lparr>db := Some (d\<lparr>clipboardItems := xs\<rparr>)\<rparr>))))"

text \<open>The records the service holds, in the store it is using.\<close>

definition stored :: "DatabaseService \<Rightarrow> ClipboardItem list" where
  "stored s = (case db s of None \<Rightarrow> localStorage s | Some d \<Rightarrow> clipboardItems d)"

text \<open>A sequence of capture events, each with the clock value of its ingest; a rejected
  ingest (the promise of \<open>addClipboardItem\<close> rejects and the caller logs it) leaves the
  store as it was.\<close>

fun ingestAll :: "(int \<times> ClipboardItem) list \<Rightarrow> DatabaseService \<Rightarrow> DatabaseService" where
  "ingestAll [] s = s"
| "ingestAll ((now, item) # evs) s =
     (case addClipboardItem now item s of
        Inl _ \<Rightarrow> ingestAll evs s
      | Inr s' \<Rightarrow> ingestAll evs s')"

subsection \<open>Capture events and sample stores\<close>

text \<open>The item the renderer builds for a capture event (\<open>handleClipboardChanged\<close>):
  the id is generated from the clock and a random suffix and is given here as a
  parameter; the source defaults to \<open>System\<close>; the remaining fields are absent.\<close>

definition capturedItem :: "string \<Rightarrow> string \<Rightarrow> string \<Rightarrow> int \<Rightarrow> string \<Rightarrow> ClipboardItem" where
  "capturedItem i c ty ts src =
     \<lparr>item_id = i, content = c, type = ty, timestamp = ts,
      source = Some (if src = [] then ''System'' else src), category = None,
      categories = None, isPinned = None, metadata = None\<rparr>"

definition pinnedNote :: ClipboardItem where
  "pinnedNote = (capturedItem ''p'' ''pinned text'' ''text'' 5 ''Notes'')\<lparr>isPinned := Some True\<rparr>"

definition sampleStore :: DatabaseService where
  "sampleStore =
     \<lparr>db = Some \<lparr>clipboardItems =
          [pinnedNote,
           capturedItem ''a'' ''first'' ''text'' 10 ''Notes'',
           capturedItem ''b'' ''second'' ''text'' 4000000000 ''Notes'',
           capturedItem ''c'' ''third'' ''text'' 4000000001 ''Notes''],
        settings = Some (defaultSettings\<lparr>maxItems := 1\<rparr>)\<rparr>,
      localStorage = []\<rparr>"

text \<open>A history of captures taken one millisecond apart: the \<open>k\<close>-th has timestamp
  \<open>k\<close>, its own id and its own content (\<open>k + 1\<close> letters).\<close>

definition seriesItem :: "nat \<Rightarrow> ClipboardItem" where
  "seriesItem k =
     capturedItem (''clipboard-'' @ replicate k CHR ''x'') (replicate (Suc k) CHR ''a'')
       ''text'' (int k) ''Notes''"

text \<open>The settings with the largest maximum the settings dialog offers.\<close>

definition settings1000 :: Settings where
  "settings1000 = defaultSettings\<lparr>maxItems := 1000\<rparr>"

definition seriesStore :: "nat \<Rightarrow> DatabaseService" where
  "seriesStore n =
     \<lparr>db = Some \<lparr>clipboardItems = map seriesItem [0..<n], settings = Some settings1000\<rparr>,
      localStorage = []\<rparr>"

text \<open>Copying the content of the oldest capture again, at time 2000.\<close>

definition recopyItem :: ClipboardItem where
  "recopyItem = capturedItem ''recopy'' ''a'' ''text'' 2000 ''Notes''"

text \<open>The capture events of the first \<open>n\<close> items of the series, each ingested at
  clock value 2000.\<close>

definition seriesEvents :: "nat \<Rightarrow> (int \<times> ClipboardItem) list" where
  "seriesEvents n = map (\<lambda>k. (2000, seriesItem k)) [0..<n]"

definition recopiedStore :: DatabaseService where
  "recopiedStore =
     \<lparr>db = Some \<lparr>clipboardItems = map seriesItem [0..<1001] @ [recopyItem],
                  settings = Some settings1000\<rparr>,
      localStorage = []\<rparr>"


text \<open>The default maximum of the settings dialog, and a history of 101 evictable
  captures under it.\<close>

definition settings100 :: Settings where
  "settings100 = defaultSettings\<lparr>maxItems := 100\<rparr>"

definition fullStore :: DatabaseService where
  "fullStore =
     \<lparr>db = Some \<lparr>clipboardItems = map seriesItem [0..<101], settings = Some settings100\<rparr>,
      localStorage = []\<rparr>"

text \<open>One pinned note and two evictable captures under a maximum of two.\<close>

definition crowdedStore :: DatabaseService where
  "crowdedStore =
     \<lparr>db = Some \<lparr>clipboardItems =
          [pinnedNote,
           capturedItem ''a'' ''first'' ''text'' 10 ''Notes'',
           capturedItem ''b'' ''second'' ''text'' 20 ''Notes''],
        settings = Some (defaultSettings\<lparr>maxItems := 2\<rparr>)\<rparr>,
      localStorage = []\<rparr>"

text \<open>The settings \<open>getSettings\<close> returns for an opened database.\<close>

definition effectiveSettings :: "IDB \<Rightarrow> Settings" where
  "effectiveSettings d = (case settings d of None \<Rightarrow> defaultSettings | Some st \<Rightarrow> st)"

text \<open>A store that every duplicate look-up sees completely: one record per id and per
  content, no protected record, and in the opened database a maximum below the look-up
  window of 1000 records that the store respects.\<close>

definition withinWindow :: "DatabaseService \<Rightarrow> bool" where
  "withinWindow s \<longleftrightarrow>
     distinct (map item_id (stored s)) \<and> distinct (map content (stored s)) \<and>
     (\<forall>x\<in>set (stored s). \<not> isProtectedItem x) \<and>
     (case db s of
        None \<Rightarrow> True
      | Some d \<Rightarrow> 0 \<le> maxItems (effectiveSettings d) \<and> maxItems (effectiveSettings d) < 1000 \<and>
          int (length (stored s)) \<le> maxItems (effectiveSettings d))"

text \<open>The freshly opened database, and three captures of which the third repeats the
  content of the first.\<close>

definition emptyStore :: DatabaseService where
  "emptyStore = \<lparr>db = Some \<lparr>clipboardItems = [], settings = None\<rparr>, localStorage = []\<rparr>"

definition copyTwice :: "(int \<times> ClipboardItem) list" where
  "copyTwice =
     [(1000, capturedItem ''i1'' ''x'' ''text'' 1000 ''Notes''),
      (2000, capturedItem ''i2'' ''y'' ''text'' 2000 ''Notes''),
      (3000, capturedItem ''i3'' ''x'' ''text'' 3000 ''Terminal'')]"

section \<open>Strings and regular expressions of the content analyzer\<close>

text \<open>
  Strings are lists of 8-bit characters. Of JavaScript's white space and line
  terminators the ones in this range are tab, line feed, vertical tab, form feed,
  carriage return, space and no-break space; \<open>trim\<close> and the class \<open>\s\<close> use
  exactly this set.
\<close>

definition js_space :: "char \<Rightarrow> bool" where
  "js_space c \<longleftrightarrow> c \<in> set [CHR 0x09, CHR 0x0A, CHR 0x0B, CHR 0x0C, CHR 0x0D, CHR 0x20, CHR 0xA0]"

definition trim :: "string \<Rightarrow> string" where
  "trim s = rev (dropWhile js_space (rev (dropWhile js_space s)))"

definition startsWith :: "string \<Rightarrow> string \<Rightarrow> bool" where
  "startsWith s p \<longleftrightarrow> take (length p) s = p"

definition endsWith :: "string \<Rightarrow> string \<Rightarrow> bool" where
  "endsWith s p \<longleftrightarrow> length p \<le> length s \<and> drop (length s - length p) s = p"

fun str_includes :: "string \<Rightarrow> string \<Rightarrow> bool" where
  "str_includes [] p = (p = [])"
| "str_includes (c # cs) p = (startsWith (c # cs) p \<or> str_includes cs p)"

text \<open>The atoms of a character class, and the regular expressions the analyzer uses:
  classes, the dot (any character but a line terminator), sequence, alternative,
  repetition (\<open>*\<close>, \<open>+\<close>, \<open>?\<close>, \<open>{n}\<close>, \<open>{n,}\<close>, \<open>{n,m}\<close>) and the assertions
  \<open>^\<close>, \<open>$\<close> (no multiline flag) and \<open>\b\<close>.\<close>

datatype atom = Lit char | Range char char | Digit | WordChar | Space

datatype rx =
    In "atom list"
  | NotIn "atom list"
  | Dot
  | Str string
  | Seq rx rx
  | Alt rx rx
  | Star rx
  | Plus rx
  | Opt rx
  | Rep nat rx
  | RepMin nat rx
  | RepRange nat nat rx
  | Bol
  | Eol
  | WordBoundary

definition is_word :: "char \<Rightarrow> bool" where
  "is_word c \<longleftrightarrow>
     (CHR ''a'' \<le> c \<and> c \<le> CHR ''z'') \<or> (CHR ''A'' \<le> c \<and> c \<le> CHR ''Z'') \<or>
     (CHR ''0'' \<le> c \<and> c \<le> CHR ''9'') \<or> c = CHR ''_''"

fun in_atom :: "atom \<Rightarrow> char \<Rightarrow> bool" where
  "in_atom (Lit a) c = (c = a)"
| "in_atom (Range a b) c = (a \<le> c \<and> c \<le> b)"
| "in_atom Digit c = (CHR ''0'' \<le> c \<and> c \<le> CHR ''9'')"
| "in_atom WordChar c = is_word c"
| "in_atom Space c = js_space c"

definition in_class :: "atom list \<Rightarrow> char \<Rightarrow> bool" where
  "in_class as c = list_ex (\<lambda>a. in_atom a c) as"

definition line_terminator :: "char \<Rightarrow> bool" where
  "line_terminator c \<longleftrightarrow> c = CHR 0x0A \<or> c = CHR 0x0D"

text \<open>A matching position: the character before it, if any, and the rest of the input.\<close>

type_synonym pos = "char option \<times> string"

definition one_char :: "(char \<Rightarrow> bool) \<Rightarrow> pos \<Rightarrow> pos list" where
  "one_char P st = (case snd st of [] \<Rightarrow> [] | c # cs \<Rightarrow> if P c then [(Some c, cs)] else [])"

definition then_all :: "(pos \<Rightarrow> pos list) \<Rightarrow> pos list \<Rightarrow> pos list" where
  "then_all f sts = concat (map f sts)"

text \<open>\<open>n\<close> repetitions, then at most \<open>n\<close> repetitions, then any number of repetitions
  that each consume input (at most as many as characters are left).\<close>

primrec times :: "nat \<Rightarrow> (pos \<Rightarrow> pos list) \<Rightarrow> pos list \<Rightarrow> pos list" where
  "times 0 f sts = sts"
| "times (Suc n) f sts = times n f (then_all f sts)"

primrec upto_times :: "nat \<Rightarrow> (pos \<Rightarrow> pos list) \<Rightarrow> pos list \<Rightarrow> pos list" where
  "upto_times 0 f sts = sts"
| "upto_times (Suc n) f sts = sts @ upto_times n f (then_all f sts)"

primrec many :: "nat \<Rightarrow> (pos \<Rightarrow> pos list) \<Rightarrow> pos \<Rightarrow> pos list" where
  "many 0 f st = [st]"
| "many (Suc n) f st =
     st # then_all (many n f) (filter (\<lambda>st'. length (snd st') < length (snd st)) (f st))"

definition word_boundary :: "pos \<Rightarrow> bool" where
  "word_boundary st \<longleftrightarrow>
     (case fst st of None \<Rightarrow> False | Some c \<Rightarrow> is_word c) \<noteq>
     (case snd st of [] \<Rightarrow> False | c # _ \<Rightarrow> is_word c)"

text \<open>All positions at which a match of the expression that starts at the given
  position can end.\<close>

primrec rx_match :: "rx \<Rightarrow> pos \<Rightarrow> pos list" where
  "rx_match (In as) st = one_char (in_class as) st"
| "rx_match (NotIn as) st = one_char (\<lambda>c. \<not> in_class as c) st"
| "rx_match Dot st = one_char (\<lambda>c. \<not> line_terminator c) st"
| "rx_match (Str p) st =
     (if startsWith (snd st) p \<and> p \<noteq> [] then [(Some (last p), drop (length p) (snd st))]
      else if p = [] then [st] else [])"
| "rx_match (Seq r1 r2) st = then_all (rx_match r2) (rx_match r1 st)"
| "rx_match (Alt r1 r2) st = rx_match r1 st @ rx_match r2 st"
| "rx_match (Star r) st = many (length (snd st)) (rx_match r) st"
| "rx_match (Plus r) st = then_all (\<lambda>st'. many (length (snd st')) (rx_match r) st') (rx_match r st)"
| "rx_match (Opt r) st = st # rx_match r st"
| "rx_match (Rep n r) st = times n (rx_match r) [st]"
| "rx_match (RepMin n r) st =
     then_all (\<lambda>st'. many (length (snd st')) (rx_match r) st') (times n (rx_match r) [st])"
| "rx_match (RepRange n m r) st = upto_times (m - n) (rx_match r) (times n (rx_match r) [st])"
| "rx_match Bol st = (if fst st = None then [st] else [])"
| "rx_match Eol st = (if snd st = [] then [st] else [])"
| "rx_match WordBoundary st = (if word_boundary st then [st] else [])"

fun positions :: "char option \<Rightarrow> string \<Rightarrow> pos list" where
  "positions p [] = [(p, [])]"
| "positions p (c # cs) = (p, c # cs) # positions (Some c) cs"

text \<open>\<open>regex.test(s)\<close>: some match starts at some position of \<open>s\<close>.\<close>

definition rx_test :: "rx \<Rightarrow> string \<Rightarrow> bool" where
  "rx_test r s = list_ex (\<lambda>st. rx_match r st \<noteq> []) (positions None s)"

text \<open>Sequences and alternatives of several expressions.\<close>

fun seqs :: "rx list \<Rightarrow> rx" where
  "seqs [] = Str []"
| "seqs [r] = r"
| "seqs (r # rs) = Seq r (seqs rs)"

fun alts :: "rx list \<Rightarrow> rx" where
  "alts [] = In []"
| "alts [r] = r"
| "alts (r # rs) = Alt r (alts rs)"

definition words :: "string list \<Rightarrow> rx" where
  "words ws = alts (map Str ws)"

subsection \<open>JSON.parse as a recognizer\<close>

text \<open>
  \<open>JSON.parse\<close> is used only for whether it throws. The recognizer follows the JSON
  grammar: objects, arrays, strings with escapes, numbers and the three literals,
  separated by the four JSON white space characters. The fuel bounds the number of
  nested and chained values; \<open>JSON_parse_succeeds\<close> supplies two units per character.
\<close>

definition json_ws :: "char \<Rightarrow> bool" where
  "json_ws c \<longleftrightarrow> c = CHR 0x20 \<or> c = CHR 0x09 \<or> c = CHR 0x0A \<or> c = CHR 0x0D"

definition skip_ws :: "string \<Rightarrow> string" where
  "skip_ws s = dropWhile json_ws s"

definition is_digit :: "char \<Rightarrow> bool" where
  "is_digit c \<longleftrightarrow> CHR ''0'' \<le> c \<and> c \<le> CHR ''9''"

definition is_hex :: "char \<Rightarrow> bool" where
  "is_hex c \<longleftrightarrow> is_digit c \<or> (CHR ''a'' \<le> c \<and> c \<le> CHR ''f'') \<or> (CHR ''A'' \<le> c \<and> c \<le> CHR ''F'')"

text \<open>The characters of a string after its opening quote, up to the closing quote.\<close>

fun json_chars :: "string \<Rightarrow> string option" where
  "json_chars [] = None"
| "json_chars [c] = (if c = CHR 0x22 then Some [] else None)"
| "json_chars (c # e # cs) =
     (if c = CHR 0x22 then Some (e # cs)
      else if c = CHR 0x5C then
        (if e \<in> set [CHR 0x22, CHR 0x5C, CHR ''/'', CHR ''b'', CHR ''f'', CHR ''n'', CHR ''r'', CHR ''t'']
         then json_chars cs
         else if e = CHR ''u'' \<and> 4 \<le> length cs \<and> list_all is_hex (take 4 cs)
         then json_chars (drop 4 cs)
         else None)
      else if c < CHR 0x20 then None
      else json_chars (e # cs))"

definition json_digits :: "string \<Rightarrow> string option" where
  "json_digits s = (if takeWhile is_digit s = [] then None else Some (dropWhile is_digit s))"

definition json_number :: "string \<Rightarrow> string option" where
  "json_number s =
     (let s1 = (if startsWith s ''-'' then drop 1 s else s);
          int_part = (if startsWith s1 ''0'' then Some (drop 1 s1) else json_digits s1)
      in case int_part of
           None \<Rightarrow> None
         | Some s2 \<Rightarrow>
             (case (if startsWith s2 ''.'' then json_digits (drop 1 s2) else Some s2) of
                None \<Rightarrow> None
              | Some s3 \<Rightarrow>
                  (if startsWith s3 ''e'' \<or> startsWith s3 ''E''
                   then (let s4 = drop 1 s3;
                             s5 = (if startsWith s4 ''+'' \<or> startsWith s4 ''-'' then drop 1 s4 else s4)
                         in json_digits s5)
                   else Some s3)))"

fun json_value :: "nat \<Rightarrow> string \<Rightarrow> string option"
  and json_elements :: "nat \<Rightarrow> string \<Rightarrow> string option"
  and json_members :: "nat \<Rightarrow> string \<Rightarrow> string option" where
  "json_value 0 s = None"
| "json_value (Suc n) s =
     (let t = skip_ws s in
      if startsWith t ''{'' then
        (if startsWith (skip_ws (drop 1 t)) ''}'' then Some (drop 1 (skip_ws (drop 1 t)))
         else json_members n (drop 1 t))
      else if startsWith t ''['' then
        (if startsWith (skip_ws (drop 1 t)) '']'' then Some (drop 1 (skip_ws (drop 1 t)))
         else json_elements n (drop 1 t))
      else if startsWith t [CHR 0x22] then json_chars (drop 1 t)
      else if startsWith t ''true'' then Some (drop 4 t)
      else if startsWith t ''false'' then Some (drop 5 t)
      else if startsWith t ''null'' then Some (drop 4 t)
      else json_number t)"
| "json_elements 0 s = None"
| "json_elements (Suc n) s =
     (case json_value n s of
        None \<Rightarrow> None
      | Some r \<Rightarrow>
          (let t = skip_ws r in
           if startsWith t '','' then json_elements n (drop 1 t)
           else if startsWith t '']'' then Some (drop 1 t)
           else None))"
| "json_members 0 s = None"
| "json_members (Suc n) s =
     (let k = skip_ws s in
      if startsWith k [CHR 0x22] then
        (case json_chars (drop 1 k) of
           None \<Rightarrow> None
         | Some r \<Rightarrow>
             (let c = skip_ws r in
              if startsWith c '':'' then
                (case json_value n (drop 1 c) of
                   None \<Rightarrow> None
                 | Some r2 \<Rightarrow>
                     (let t = skip_ws r2 in
                      if startsWith t '','' then json_members n (drop 1 t)
                      else if startsWith t ''}'' then Some (drop 1 t)
                      else None))
              else None))
      else None)"

definition JSON_parse_succeeds :: "string \<Rightarrow> bool" where
  "JSON_parse_succeeds s =
     (case json_value (2 * length s + 2) s of None \<Rightarrow> False | Some r \<Rightarrow> skip_ws r = [])"

subsection \<open>Numbers as text, and the entropy of a string\<close>

text \<open>The decimal text of a number, as template literals and string concatenation
  produce it.\<close>

fun nat_toString :: "nat \<Rightarrow> string" where
  "nat_toString n =
     (if n < 10 then [char_of (48 + n)] else nat_toString (n div 10) @ [char_of (48 + n mod 10)])"

definition toString :: "int \<Rightarrow> string" where
  "toString i = (if i < 0 then ''-'' @ nat_toString (nat (- i)) else nat_toString (nat i))"

text \<open>The table \<open>freq\<close> of \<open>calculateEntropy\<close>: one counter per character, in order of
  first occurrence.\<close>

fun count_char :: "char \<Rightarrow> (char \<times> nat) list \<Rightarrow> (char \<times> nat) list" where
  "count_char c [] = [(c, 1)]"
| "count_char c ((k, n) # freq) = (if k = c then (k, n + 1) # freq else (k, n) # count_char c freq)"

definition char_freq :: "string \<Rightarrow> (char \<times> nat) list" where
  "char_freq str = fold count_char str []"

text \<open>Shannon entropy in bits per character, over the reals: the rounding of the
  floating-point sum is not modelled.\<close>

definition calculateEntropy :: "string \<Rightarrow> real" where
  "calculateEntropy str =
     fold (\<lambda>count entropy.
             entropy - (real count / real (length str)) * log 2 (real count / real (length str)))
       (map snd (char_freq str)) 0"

subsection \<open>analyzeContentType\<close>

record ContentTypeResult =
  content_type :: string
  type_confidence :: int
  patterns :: "string list"

text \<open>The class \<open>[\s\S]\<close>: every character.\<close>

definition AnyChar :: rx where
  "AnyChar = NotIn []"

definition alnum :: "atom list" where
  "alnum = [Range CHR ''a'' CHR ''z'', Range CHR ''A'' CHR ''Z'', Range CHR ''0'' CHR ''9'']"

definition rx_openai_key :: rx where
  "rx_openai_key = seqs [Bol, Str ''sk-'', RepMin 40 (In (alnum @ [Lit CHR ''-''])), Eol]"

definition rx_stripe_pk :: rx where
  "rx_stripe_pk = seqs [Bol, Str ''pk_test_'', Rep 24 (In alnum), Eol]"

definition rx_stripe_sk :: rx where
  "rx_stripe_sk = seqs [Bol, Str ''sk_test_'', Rep 24 (In alnum), Eol]"

definition rx_github_token :: rx where
  "rx_github_token = seqs [Bol, Str ''ghp_'', Rep 36 (In alnum), Eol]"

definition rx_base64 :: rx where
  "rx_base64 =
     seqs [Bol,
           RepMin 40 (In [Range CHR ''A'' CHR ''Z'', Range CHR ''a'' CHR ''z'',
                          Range CHR ''0'' CHR ''9'', Lit CHR ''+'', Lit CHR ''/'']),
           RepRange 0 2 (Str ''=''), Eol]"

definition codeIndicators :: "(rx \<times> string) list" where
  "codeIndicators =
     [(seqs [WordBoundary,
             words [''function'', ''const'', ''let'', ''var'', ''class'', ''import'', ''export'',
                    ''if'', ''else'', ''for'', ''while'', ''return''],
             WordBoundary], ''JavaScript keywords''),
      (seqs [WordBoundary,
             words [''def'', ''class'', ''import'', ''from'', ''if'', ''elif'', ''else'', ''for'',
                    ''while'', ''return'', ''try'', ''except''],
             WordBoundary], ''Python keywords''),
      (seqs [Bol, Star (In [Space]), Plus (In [WordChar, Lit CHR ''.'']), Star (In [Space]),
             In [Lit CHR ''='', Lit CHR '':''], Star (In [Space])], ''Assignment pattern''),
      (seqs [Str ''{'', Star (In [Space]), Star AnyChar, Star (In [Space]), Str ''}''],
       ''Code block braces''),
      (alts [seqs [Bol, Star (In [Space]), Str ''//'', Star Dot],
             seqs [Bol, Star (In [Space]), Str ''/*'', Star Dot, Str ''*/''],
             seqs [Bol, Star (In [Space]), Str ''#'', Star Dot]], ''Code comments''),
      (seqs [Str '';'', Star (In [Space]), Eol], ''Statement terminator''),
      (seqs [Bol, Star (In [Space]), words [''public'', ''private'', ''protected'', ''static''],
             Plus (In [Space])], ''Access modifiers''),
      (seqs [Str ''.'',
             words [''js'', ''ts'', ''py'', ''java'', ''cpp'', ''cs'', ''php'', ''rb'', ''go'', ''rs''],
             In [Lit CHR '':'', Lit CHR ''.'']], ''File extension in content'')]"

definition rx_url :: rx where
  "rx_url =
     seqs [Bol, Str ''http'', Opt (Str ''s''), Str ''://'',
           NotIn [Space, Lit CHR ''/'', Lit CHR ''$'', Lit CHR ''.'', Lit CHR ''?'', Lit CHR ''#''],
           Dot, Star (NotIn [Space]), Eol]"

definition rx_email :: rx where
  "rx_email =
     seqs [Bol,
           Plus (In (alnum @ [Lit CHR ''.'', Lit CHR ''_'', Lit CHR ''%'', Lit CHR ''+'', Lit CHR ''-''])),
           Str ''@'',
           Plus (In (alnum @ [Lit CHR ''.'', Lit CHR ''-''])),
           Str ''.'',
           RepMin 2 (In [Range CHR ''a'' CHR ''z'', Range CHR ''A'' CHR ''Z''])
           , Eol]"

definition rx_data_uri :: rx where
  "rx_data_uri =
     seqs [Bol, Str ''data:image/'',
           words [''png'', ''jpeg'', ''jpg'', ''gif'', ''webp'', ''svg+xml''], Str '';base64,'']"

definition rx_png :: rx where
  "rx_png = seqs [Bol, Str ''iVBORw0KGgoAAAANSUhEUgAA'']"

definition rx_jpeg :: rx where
  "rx_jpeg = seqs [Bol, Str ''/9j/'']"

definition rx_gif :: rx where
  "rx_gif = seqs [Bol, Str ''R0lGODlh'']"

definition hex_digit :: "atom list" where
  "hex_digit = [Range CHR ''A'' CHR ''F'', Range CHR ''a'' CHR ''f'', Range CHR ''0'' CHR ''9'']"

definition rx_color :: rx where
  "rx_color = seqs [Bol, Str ''#'', Alt (Rep 6 (In hex_digit)) (Rep 3 (In hex_digit)), Eol]"

definition rx_symbol :: rx where
  "rx_symbol =
     In (map Lit [CHR ''!'', CHR ''@'', CHR ''#'', CHR ''$'', CHR ''%'', CHR ''^'', CHR ''&'',
                  CHR ''*'', CHR ''('', CHR '')'', CHR '','', CHR ''.'', CHR ''?'', CHR 0x22,
                  CHR '':'', CHR ''{'', CHR ''}'', CHR ''|'', CHR ''<'', CHR ''>''])"

text \<open>The indicators that fire on the trimmed content, and the score they add up to
  (15 points each).\<close>

definition matchedIndicators :: "string \<Rightarrow> (rx \<times> string) list" where
  "matchedIndicators trimmed = filter (\<lambda>indicator. rx_test (fst indicator) trimmed) codeIndicators"

definition codeScore :: "string \<Rightarrow> int" where
  "codeScore trimmed = 15 * int (length (matchedIndicators trimmed))"

text \<open>Whether the content is bounded by braces or by brackets, the condition under which
  \<open>JSON.parse\<close> is tried.\<close>

definition jsonLike :: "string \<Rightarrow> bool" where
  "jsonLike trimmed \<longleftrightarrow>
     (startsWith trimmed ''{'' \<and> endsWith trimmed ''}'') \<or>
     (startsWith trimmed ''['' \<and> endsWith trimmed '']'')"

definition analyzeContentType :: "string \<Rightarrow> ContentTypeResult" where
  "analyzeContentType text_content =
     (let trimmed = trim text_content in
      if rx_test rx_openai_key trimmed
      then \<lparr>content_type = ''api-key'', type_confidence = 95, patterns = [''OpenAI API key format'']\<rparr>
      else if rx_test rx_stripe_pk trimmed \<or> rx_test rx_stripe_sk trimmed
      then \<lparr>content_type = ''api-key'', type_confidence = 95, patterns = [''Stripe API key format'']\<rparr>
      else if rx_test rx_github_token trimmed
      then \<lparr>content_type = ''api-key'', type_confidence = 95,
            patterns = [''GitHub personal access token'']\<rparr>
      else
        let patterns0 = (if rx_test rx_base64 trimmed \<and> length trimmed > 40
                         then [''Base64 pattern (possible token)''] else []);
            patterns1 = patterns0 @ map snd (matchedIndicators trimmed)
        in
        if codeScore trimmed \<ge> 30
        then \<lparr>content_type = ''code'', type_confidence = min 95 (codeScore trimmed),
              patterns = patterns1\<rparr>
        else if jsonLike trimmed \<and> JSON_parse_succeeds trimmed
        then \<lparr>content_type = ''json'', type_confidence = 90, patterns = [''Valid JSON structure'']\<rparr>
        else if rx_test rx_url trimmed
        then \<lparr>content_type = ''url'', type_confidence = 95, patterns = [''HTTP/HTTPS URL format'']\<rparr>
        else if rx_test rx_email trimmed
        then \<lparr>content_type = ''email'', type_confidence = 95, patterns = [''Email format'']\<rparr>
        else if rx_test rx_data_uri trimmed
        then \<lparr>content_type = ''image'', type_confidence = 95, patterns = [''Data URI image format'']\<rparr>
        else if rx_test rx_png trimmed \<or> rx_test rx_jpeg trimmed \<or> rx_test rx_gif trimmed
        then \<lparr>content_type = ''image'', type_confidence = 90,
              patterns = [''Base64 image signature (PNG/JPEG/GIF)'']\<rparr>
        else if rx_test rx_color trimmed
        then \<lparr>content_type = ''color'', type_confidence = 95, patterns = [''Hex color code'']\<rparr>
        else if calculateEntropy trimmed > 3.5 \<and> length trimmed \<ge> 8 \<and> length trimmed \<le> 128 \<and>
                rx_test (In [Range CHR ''A'' CHR ''Z'']) trimmed \<and>
                rx_test (In [Range CHR ''a'' CHR ''z'']) trimmed \<and>
                rx_test (In [Digit]) trimmed \<and> rx_test rx_symbol trimmed
        then \<lparr>content_type = ''password'', type_confidence = 70,
              patterns = [''High entropy with mixed character types'']\<rparr>
        else \<lparr>content_type = ''text'', type_confidence = 60,
              patterns = [''No specific patterns detected'']\<rparr>)"

subsection \<open>detectSourcePlatform\<close>

record SourcePlatformResult =
  platform :: string
  platform_confidence :: int
  indicators :: "string list"

definition rx_source_file :: rx where
  "rx_source_file =
     seqs [Str ''.'',
           words [''ts'', ''js'', ''py'', ''java'', ''cpp'', ''cs'', ''php'', ''rb'', ''go'', ''rs'',
                  ''tsx'', ''jsx'']]"

text \<open>The second editor pattern starts with the record-button sign U+23FA, which is no
  8-bit character: the empty class stands for it.\<close>

definition rx_file_operation :: rx where
  "rx_file_operation =
     seqs [Bol, Star (In [Space]), In [], Star (In [Space]), Str ''Write('', Star Dot, Str ''.'',
           words [''ts'', ''js'', ''py'', ''java'']]"

definition rx_todo :: rx where
  "rx_todo =
     alts [seqs [Bol, Star (In [Space]), Str ''//'', Star Dot, Str ''TODO''],
           seqs [Bol, Star (In [Space]), Str ''//'', Star Dot, Str ''FIXME''],
           seqs [Bol, Star (In [Space]), Str ''#'', Star Dot, Str ''TODO'']]"

definition rx_dollar_prompt :: rx where
  "rx_dollar_prompt = seqs [Bol, Str ''$ '']"

definition rx_angle_prompt :: rx where
  "rx_angle_prompt = seqs [Bol, Str ''> '']"

definition rx_ansi :: rx where
  "rx_ansi = seqs [Str [CHR 0x1B, CHR ''[''], Star (In [Digit, Lit CHR '';'']), Str ''m'']"

text \<open>The tag pattern carries the flag \<open>i\<close>: its letter class matches both cases.\<close>

definition rx_html_tag :: rx where
  "rx_html_tag =
     seqs [Str ''<'', In [Range CHR ''a'' CHR ''z'', Range CHR ''A'' CHR ''Z''], Star AnyChar, Str ''>'']"

definition rx_one_line_280 :: rx where
  "rx_one_line_280 = seqs [Bol, RepRange 1 280 Dot, Eol]"

definition rx_unix_path :: rx where
  "rx_unix_path =
     seqs [Bol, Str ''/'',
           Plus (In (alnum @ [Lit CHR ''_'', Lit CHR ''-'', Lit CHR ''/'', Lit CHR ''.''])), Eol]"

definition rx_windows_path :: rx where
  "rx_windows_path =
     seqs [Bol, In [Range CHR ''A'' CHR ''Z''], Str [CHR '':'', CHR 0x5C],
           Plus (In (alnum @ [Lit CHR ''_'', Lit CHR ''-'', Lit (CHR 0x5C)])), Eol]"

text \<open>\<open>trimmed.split('\n')[0]\<close>: the text before the first line feed.\<close>

definition firstLine :: "string \<Rightarrow> string" where
  "firstLine trimmed = takeWhile (\<lambda>c. c \<noteq> CHR 0x0A) trimmed"

text \<open>\<open>if (b) indicators.push(x)\<close>.\<close>

definition push_if :: "bool \<Rightarrow> string \<Rightarrow> string list \<Rightarrow> string list" where
  "push_if b x xs = (if b then xs @ [x] else xs)"

definition detectSourcePlatform :: "string \<Rightarrow> SourcePlatformResult" where
  "detectSourcePlatform text_content =
     (let trimmed = trim text_content in
      if str_includes trimmed ''Write('' \<and> rx_test rx_source_file trimmed
      then \<lparr>platform = ''VS Code'', platform_confidence = 85,
            indicators = [''VS Code Write command pattern'']\<rparr>
      else if rx_test rx_file_operation trimmed
      then \<lparr>platform = ''VS Code'', platform_confidence = 90, indicators = [''VS Code file operation'']\<rparr>
      else
        let i1 = push_if (str_includes trimmed ''src/'' \<or> str_includes trimmed ''lib/'' \<or>
                          str_includes trimmed ''components/'') ''Project structure paths'' [];
            i2 = push_if (rx_test rx_todo trimmed) ''Code comments with TODO/FIXME'' i1
        in
        if rx_test rx_dollar_prompt trimmed \<or> rx_test rx_angle_prompt trimmed
        then \<lparr>platform = ''Terminal'', platform_confidence = 80, indicators = [''Command prompt prefix'']\<rparr>
        else if rx_test rx_ansi trimmed
        then \<lparr>platform = ''Terminal'', platform_confidence = 85, indicators = [''ANSI color codes'']\<rparr>
        else
          let i3 = push_if (str_includes trimmed ''Error:'' \<and> str_includes trimmed ''at '')
                     ''Stack trace format'' i2;
              i4 = push_if (str_includes trimmed ''http://'' \<or> str_includes trimmed ''https://'')
                     ''Contains URLs'' i3
          in
          if rx_test rx_html_tag trimmed
          then \<lparr>platform = ''Browser'', platform_confidence = 75, indicators = [''HTML tags'']\<rparr>
          else
            let i5 = push_if (str_includes trimmed ''window.'' \<or> str_includes trimmed ''document.'')
                       ''Browser DOM references'' i4;
                i6 = push_if (str_includes trimmed ''@'' \<and> length trimmed < 280 \<and>
                              \<not> str_includes trimmed ''.com'')
                       ''Mention pattern (possible social media)'' i5;
                i7 = push_if (rx_test rx_one_line_280 trimmed \<and> str_includes trimmed ''#'')
                       ''Short text with hashtags'' i6
            in
            if rx_test rx_unix_path (firstLine trimmed)
            then \<lparr>platform = ''File Explorer'', platform_confidence = 70, indicators = [''Unix file path'']\<rparr>
            else if rx_test rx_windows_path (firstLine trimmed)
            then \<lparr>platform = ''File Explorer'', platform_confidence = 70,
                  indicators = [''Windows file path'']\<rparr>
            else
              let i8 = push_if (str_includes trimmed ''# '' \<or> str_includes trimmed ''## '')
                         ''Markdown headers'' i7
              in
              if str_includes trimmed ''- [ ]'' \<or> str_includes trimmed ''- [x]''
              then \<lparr>platform = ''Notes App'', platform_confidence = 75,
                    indicators = [''Markdown checkboxes'']\<rparr>
              else if length i8 > 0 \<and>
                      list_ex (\<lambda>i. str_includes i ''Code'' \<or> str_includes i ''Project'') i8
              then \<lparr>platform = ''VS Code'', platform_confidence = 70, indicators = i8\<rparr>
              else \<lparr>platform = ''Unknown'', platform_confidence = 20, indicators = i8\<rparr>)"

subsection \<open>enhancedDetection\<close>

record DetectionResult =
  contentType :: string
  sourceApp :: string
  confidence :: int
  reasoning :: "string list"

definition enhancedDetection :: "string \<Rightarrow> string \<Rightarrow> DetectionResult" where
  "enhancedDetection text_content detectedApp =
     (let contentAnalysis = analyzeContentType text_content;
          platformAnalysis = detectSourcePlatform text_content;
          (finalApp, conf, reasoning1) =
            (if platform_confidence platformAnalysis > 70
             then (platform platformAnalysis, platform_confidence platformAnalysis,
                   [''Content analysis suggests '' @ platform platformAnalysis @ '' ('' @
                      toString (platform_confidence platformAnalysis) @ ''% confidence)''] @
                   indicators platformAnalysis)
             else if detectedApp \<noteq> [] \<and> detectedApp \<noteq> ''System'' \<and> detectedApp \<noteq> ''Finder''
             then (detectedApp, 60, [''Using detected app: '' @ detectedApp])
             else (platform platformAnalysis, max 30 (platform_confidence platformAnalysis),
                   [''Fallback to content analysis: '' @ platform platformAnalysis]))
      in \<lparr>contentType = content_type contentAnalysis,
          sourceApp = finalApp,
          confidence = conf,
          reasoning = reasoning1 @
            [''Content type: '' @ content_type contentAnalysis @ '' ('' @
               toString (type_confidence contentAnalysis) @ ''% confidence)''] @
            patterns contentAnalysis\<rparr>)"

text \<open>The labels of the clipboard manager's own process, which the tracker of the
  active application and the poller leave out.\<close>

definition isOwnProcess :: "string \<Rightarrow> bool" where
  "isOwnProcess app \<longleftrightarrow> app = ''Electron'' \<or> app = ''ClipFlow''"

section \<open>Clipboard poller of the main process\<close>

text \<open>
  The variables that \<open>main.ts\<close> keeps for the poller and for the handler of
  \<open>set-clipboard-text\<close>, together with what the poller reads from outside: the text and
  the image of the system clipboard (\<open>clipboardImage\<close> is the data URL of a non-empty
  image) and whether the overlay window exists and is not destroyed.
\<close>

record MainProcess =
  clipboardText :: string
  clipboardImage :: "string option"
  isInternalCopy :: bool
  lastActiveApp :: string
  lastClipboardContent :: string
  lastClipboardHash :: string
  lastProcessedTime :: int
  overlayOpen :: bool

text \<open>The message \<open>clipboard-changed\<close> sent to the overlay window.\<close>

record ClipboardData =
  data_content :: string
  data_timestamp :: int
  data_type :: string
  data_source :: string
  data_confidence :: int
  data_reasoning :: "string list"

text \<open>The handler of \<open>set-clipboard-text\<close> sets the flag and writes the text; the timer
  it starts clears the flag 1000 ms later.\<close>

definition setClipboardText :: "string \<Rightarrow> MainProcess \<Rightarrow> MainProcess" where
  "setClipboardText t m = m\<lparr>isInternalCopy := True, clipboardText := t, clipboardImage := None\<rparr>"

definition internalCopyTimeout :: "MainProcess \<Rightarrow> MainProcess" where
  "internalCopyTimeout m = m\<lparr>isInternalCopy := False\<rparr>"

text \<open>Another application puts a text on the clipboard.\<close>

definition externalCopy :: "string \<Rightarrow> MainProcess \<Rightarrow> MainProcess" where
  "externalCopy t m = m\<lparr>clipboardText := t, clipboardImage := None\<rparr>"

text \<open>What a tick reads: the text, or the data URL of the image when the text is empty.\<close>

definition readClipboard :: "MainProcess \<Rightarrow> string option" where
  "readClipboard m = (if clipboardText m = [] then clipboardImage m else Some (clipboardText m))"

text \<open>\<open>currentContent.length + currentContent.substring(0, 50) +
  currentContent.substring(currentContent.length - 50)\<close>; a negative start of
  \<open>substring\<close> counts as 0.\<close>

definition contentHash :: "string \<Rightarrow> string" where
  "contentHash c = toString (int (length c)) @ take 50 c @ drop (length c - 50) c"

text \<open>
  One run of the callback of \<open>startClipboardMonitoring\<close>. \<open>now\<close> is the clock at the start
  of the tick, \<open>realTimeApp\<close> the answer of \<open>getActiveApplication\<close> (\<open>None\<close> when it
  throws) and \<open>sentAt\<close> the clock when the message is built. The result is the new state
  and the message sent to the overlay window, if any. The callback is run as one step:
  nothing else is interleaved while it waits for the active application.
\<close>

definition pollClipboard ::
  "int \<Rightarrow> string option \<Rightarrow> int \<Rightarrow> MainProcess \<Rightarrow> MainProcess \<times> ClipboardData option" where
  "pollClipboard now realTimeApp sentAt m =
     (case readClipboard m of
        None \<Rightarrow> (m, None)
      | Some currentContent \<Rightarrow>
          if currentContent = lastClipboardContent m then (m, None)
          else
            if contentHash currentContent \<noteq> lastClipboardHash m \<and>
               trim currentContent \<noteq> trim (lastClipboardContent m) \<and>
               now - lastProcessedTime m > 500
            then
              if isInternalCopy m
              then (m\<lparr>lastClipboardContent := currentContent\<rparr>, None)
              else
                let fallbackApp = (if lastActiveApp m = [] then ''System'' else lastActiveApp m);
                    detectedApp =
                      (case realTimeApp of
                         Some app \<Rightarrow>
                           if app \<noteq> [] \<and> app \<noteq> ''Electron'' \<and> app \<noteq> ''ClipFlow''
                           then app else fallbackApp
                       | None \<Rightarrow> fallbackApp);
                    analysis = enhancedDetection currentContent detectedApp;
                    clipboardData =
                      \<lparr>data_content = currentContent,
                       data_timestamp = sentAt,
                       data_type = contentType analysis,
                       data_source = sourceApp analysis,
                       data_confidence = confidence analysis,
                       data_reasoning = reasoning analysis\<rparr>
                in (m\<lparr>lastClipboardContent := currentContent,
                       lastClipboardHash := contentHash currentContent,
                       lastProcessedTime := now\<rparr>,
                    if overlayOpen m then Some clipboardData else None)
            else (m, None))"

text \<open>The main process at start-up, once the overlay window has been created.\<close>

definition startedMain :: MainProcess where
  "startedMain =
     \<lparr>clipboardText = [], clipboardImage = None, isInternalCopy = False,
      lastActiveApp = ''System'', lastClipboardContent = [], lastClipboardHash = [],
      lastProcessedTime = 0, overlayOpen = True\<rparr>"

text \<open>The text \<open>abc\<close> has been copied in another application and captured by the tick at
  time 1000.\<close>

definition capturedMain :: MainProcess where
  "capturedMain =
     \<lparr>clipboardText = ''abc'', clipboardImage = None, isInternalCopy = False,
      lastActiveApp = ''System'', lastClipboardContent = ''abc'', lastClipboardHash = ''3abcabc'',
      lastProcessedTime = 1000, overlayOpen = True\<rparr>"

text \<open>The overlay has then written \<open>xyz\<close> through \<open>set-clipboard-text\<close> and the tick at
  time 2000 has seen it.\<close>

definition confirmedMain :: MainProcess where
  "confirmedMain =
     \<lparr>clipboardText = ''xyz'', clipboardImage = None, isInternalCopy = True,
      lastActiveApp = ''System'', lastClipboardContent = ''xyz'', lastClipboardHash = ''3abcabc'',
      lastProcessedTime = 1000, overlayOpen = True\<rparr>"

subsection \<open>The timers of set-clipboard-text\<close>

text \<open>
  Every call of the handler of \<open>set-clipboard-text\<close> starts a timer of 1000 ms with
  \<open>setTimeout\<close> and none is ever cancelled. \<open>reset_timers\<close> holds the due times of the
  timers that have not fired yet, oldest first.
\<close>

record TimedMain =
  main_process :: MainProcess
  reset_timers :: "int list"

text \<open>
  What happens in the main process, each with the clock value at which it happens: the
  overlay asks for a text to be written, the event loop runs the callback of a timer, another
  application puts a text on the clipboard, the poller ticks.
\<close>

datatype action =
    SetClipboardText int string
  | ResetTimer int
  | ExternalCopy string
  | PollTick int "string option" int

text \<open>
  One action, with the messages it sends to the overlay window. The event loop runs the
  oldest timer, and only once it is due; \<open>setTimeout\<close> promises no more than that, so a due
  timer may fire late.
\<close>

fun step :: "action \<Rightarrow> TimedMain \<Rightarrow> TimedMain \<times> ClipboardData list" where
  "step (SetClipboardText tm t) s =
     (\<lparr>main_process = setClipboardText t (main_process s),
       reset_timers = reset_timers s @ [tm + 1000]\<rparr>, [])"
| "step (ResetTimer tm) s =
     (case reset_timers s of
        [] \<Rightarrow> (s, [])
      | due # later \<Rightarrow>
          if due \<le> tm
          then (\<lparr>main_process = internalCopyTimeout (main_process s), reset_timers = later\<rparr>, [])
          else (s, []))"
| "step (ExternalCopy t) s = (s\<lparr>main_process := externalCopy t (main_process s)\<rparr>, [])"
| "step (PollTick now realTimeApp sentAt) s =
     (case pollClipboard now realTimeApp sentAt (main_process s) of
        (m, None) \<Rightarrow> (s\<lparr>main_process := m\<rparr>, [])
      | (m, Some clipboardData) \<Rightarrow> (s\<lparr>main_process := m\<rparr>, [clipboardData]))"

fun run :: "action list \<Rightarrow> TimedMain \<Rightarrow> TimedMain \<times> ClipboardData list" where
  "run [] s = (s, [])"
| "run (a # as) s =
     (case step a s of
        (s1, sent1) \<Rightarrow> (case run as s1 of (s2, sent2) \<Rightarrow> (s2, sent1 @ sent2)))"



section \<open>A pinned item in the localStorage fallback\<close>

text \<open>The service without a database, holding the pinned note, and the next hundred
  captures.\<close>

definition pinnedFallback :: DatabaseService where
  "pinnedFallback = \<lparr>db = None, localStorage = [pinnedNote]\<rparr>"

definition laterEvents :: "nat \<Rightarrow> (int \<times> ClipboardItem) list" where
  "laterEvents n = map (\<lambda>k. (2000, seriesItem k)) [6..<6 + n]"

section \<open>Properties of the retention manager\<close>

lemma stored_deleteClipboardItem:
  "db s \<noteq> None \<Longrightarrow> stored (deleteClipboardItem k s) = idb_delete k (stored s)"
  by (auto simp: stored_def deleteClipboardItem_def split: option.splits)

lemma db_deleteClipboardItem:
  "db s \<noteq> None \<Longrightarrow> db (deleteClipboardItem k s) \<noteq> None"
  by (auto simp: deleteClipboardItem_def split: option.splits)

lemma deleteAll_Cons:
  "deleteAll (d # ds) s = deleteAll ds (deleteClipboardItem (item_id d) s)"
  by (simp add: deleteAll_def)

lemma deleteAll_db:
  "db s \<noteq> None \<Longrightarrow> db (deleteAll ds s) \<noteq> None"
proof (induction ds arbitrary: s)
  case Nil
  then show ?case by (simp add: deleteAll_def)
next
  case (Cons d ds)
  from Cons.prems have "db (deleteClipboardItem (item_id d) s) \<noteq> None"
    by (rule db_deleteClipboardItem)
  then show ?case
    unfolding deleteAll_Cons by (rule Cons.IH)
qed

lemma stored_deleteAll:
  "db s \<noteq> None \<Longrightarrow>
   stored (deleteAll ds s) = filter (\<lambda>y. item_id y \<notin> item_id ` set ds) (stored s)"
proof (induction ds arbitrary: s)
  case Nil
  then show ?case by (simp add: deleteAll_def)
next
  case (Cons d ds)
  have step: "deleteAll (d # ds) s = deleteAll ds (deleteClipboardItem (item_id d) s)"
    by (simp add: deleteAll_def)
  have "stored (deleteAll ds (deleteClipboardItem (item_id d) s)) =
        filter (\<lambda>y. item_id y \<notin> item_id ` set ds) (idb_delete (item_id d) (stored s))"
    using Cons.IH [of "deleteClipboardItem (item_id d) s"] Cons.prems
    by (simp add: db_deleteClipboardItem stored_deleteClipboardItem)
  then show ?case
    unfolding step by (auto simp: idb_delete_def intro: filter_cong)
qed

lemma deleteAll_keeps:
  assumes "db s \<noteq> None" and "p \<in> set (stored s)"
      and "\<forall>d\<in>set ds. item_id d \<noteq> item_id p"
  shows "p \<in> set (stored (deleteAll ds s))"
  using assms by (auto simp: stored_deleteAll)

lemma set_getClipboardItems: "set (getClipboardItems n s) \<subseteq> set (stored s)"
proof -
  have "set (take n xs) \<subseteq> set xs" for xs :: "ClipboardItem list"
    by (rule set_take_subset)
  then show ?thesis
    by (auto simp: getClipboardItems_def stored_def sort_newest_first_def
        idb_index_by_timestamp_def dest: in_set_takeD split: option.splits)
qed

lemma distinct_ids_eq:
  assumes "distinct (map item_id xs)" and "a \<in> set xs" and "b \<in> set xs"
      and "item_id a = item_id b"
  shows "a = b"
  using assms by (meson distinct_map inj_on_def)

lemma unprotected_id_differs:
  assumes "distinct (map item_id xs)" and "p \<in> set xs" and "isProtectedItem p"
      and "set ds \<subseteq> set xs" and "\<forall>d\<in>set ds. \<not> isProtectedItem d"
  shows "\<forall>d\<in>set ds. item_id d \<noteq> item_id p"
proof
  fix d assume d: "d \<in> set ds"
  show "item_id d \<noteq> item_id p"
  proof
    assume "item_id d = item_id p"
    with assms(1,2,4) d have "d = p"
      by (intro distinct_ids_eq [of xs]) auto
    with assms(3,5) d show False by auto
  qed
qed

lemma countPass_db: "db s \<noteq> None \<Longrightarrow> db (countPass st items s) \<noteq> None"
  unfolding countPass_def using deleteAll_db by (cases "int (length items) > maxItems st") auto

lemma set_js_slice_from: "set (js_slice_from k xs) \<subseteq> set xs"
  by (auto simp: js_slice_from_def dest: in_set_dropD)

lemma countPass_keeps_protected:
  assumes "db s \<noteq> None" and "distinct (map item_id xs)" and "set items \<subseteq> set xs"
      and "p \<in> set xs" and "isProtectedItem p" and "p \<in> set (stored s)"
  shows "p \<in> set (stored (countPass st items s))"
proof (cases "int (length items) > maxItems st")
  case False
  with assms(6) show ?thesis by (simp add: countPass_def)
next
  case True
  let ?ds = "js_slice_from (maxItems st) (filter (\<lambda>item. \<not> isProtectedItem item) items)"
  have sub: "set ?ds \<subseteq> set xs"
    using set_js_slice_from [of "maxItems st" "filter (\<lambda>item. \<not> isProtectedItem item) items"]
      assms(3) by auto
  have unp: "\<forall>d\<in>set ?ds. \<not> isProtectedItem d"
    using set_js_slice_from [of "maxItems st" "filter (\<lambda>item. \<not> isProtectedItem item) items"]
    by auto
  have "\<forall>d\<in>set ?ds. item_id d \<noteq> item_id p"
    by (rule unprotected_id_differs [OF assms(2) assms(4) assms(5) sub unp])
  with assms(1,6) have "p \<in> set (stored (deleteAll ?ds s))"
    by (intro deleteAll_keeps)
  with True show ?thesis by (simp add: countPass_def)
qed

lemma agePass_keeps_protected:
  assumes "db s \<noteq> None" and "distinct (map item_id xs)" and "set items \<subseteq> set xs"
      and "p \<in> set xs" and "isProtectedItem p" and "p \<in> set (stored s)"
  shows "p \<in> set (stored (agePass st now items s))"
proof -
  let ?ds = "filter (\<lambda>item. timestamp item < cutoffDate st now \<and> \<not> isProtectedItem item) items"
  have sub: "set ?ds \<subseteq> set xs" using assms(3) by auto
  have unp: "\<forall>d\<in>set ?ds. \<not> isProtectedItem d" by auto
  have "\<forall>d\<in>set ?ds. item_id d \<noteq> item_id p"
    by (rule unprotected_id_differs [OF assms(2) assms(4) assms(5) sub unp])
  with assms(1,6) have "p \<in> set (stored (deleteAll ?ds s))"
    by (intro deleteAll_keeps)
  then show ?thesis by (simp add: agePass_def)
qed

lemma getSettings_Some:
  assumes "db s = Some d"
  shows "\<exists>st s1. getSettings s = Inr (st, s1) \<and> stored s1 = stored s \<and> db s1 \<noteq> None \<and>
           st = (case settings d of None \<Rightarrow> defaultSettings | Some c \<Rightarrow> c)"
  using assms by (auto simp: getSettings_def stored_def split: option.splits)

text \<open>
  The clean-up of the opened database. \<open>cleanupOldItems\<close> runs on the opened database,
  whose object store holds one record per id. Every item of the store that is pinned or
  has a non-empty category list is still in the store after the count-based pass, after
  the age-based pass, and after the whole clean-up, which always completes.
\<close>

theorem cleanupOldItems_keeps_protected:
  assumes "db s = Some d" and "distinct (map item_id (stored s))"
      and "p \<in> set (stored s)" and "isProtectedItem p"
  shows "p \<in> set (stored (countPass st (getClipboardItems 1000 s) s)) \<and>
         p \<in> set (stored (agePass st now (getClipboardItems 1000 s) s)) \<and>
         (\<exists>s'. cleanupOldItems now s = Inr s' \<and> p \<in> set (stored s'))"
proof -
  have dbs: "db s \<noteq> None" using assms(1) by simp
  have sub: "set (getClipboardItems 1000 s) \<subseteq> set (stored s)"
    by (rule set_getClipboardItems)
  have c: "p \<in> set (stored (countPass st (getClipboardItems 1000 s) s))"
    by (rule countPass_keeps_protected [OF dbs assms(2) sub assms(3) assms(4) assms(3)])
  have a: "p \<in> set (stored (agePass st now (getClipboardItems 1000 s) s))"
    by (rule agePass_keeps_protected [OF dbs assms(2) sub assms(3) assms(4) assms(3)])
  obtain cfg s1 where gs: "getSettings s = Inr (cfg, s1)" and st1: "stored s1 = stored s"
    and db1: "db s1 \<noteq> None"
    using getSettings_Some [OF assms(1)] by blast
  let ?items = "getClipboardItems 1000 s1"
  have sub1: "set ?items \<subseteq> set (stored s)"
    using set_getClipboardItems [of 1000 s1] st1 by simp
  have p1: "p \<in> set (stored s1)" using assms(3) st1 by simp
  have pc: "p \<in> set (stored (countPass cfg ?items s1))"
    by (rule countPass_keeps_protected [OF db1 assms(2) sub1 assms(3) assms(4) p1])
  have pa: "p \<in> set (stored (agePass cfg now ?items (countPass cfg ?items s1)))"
    by (rule agePass_keeps_protected
        [OF countPass_db [OF db1] assms(2) sub1 assms(3) assms(4) pc])
  have "cleanupOldItems now s = Inr (agePass cfg now ?items (countPass cfg ?items s1))"
    using assms(1) gs by (simp add: cleanupOldItems_def Let_def)
  with pa c a show ?thesis by simp
qed

theorem cleanupOldItems_keeps_protected_witness:
  "db sampleStore \<noteq> None \<and> distinct (map item_id (stored sampleStore)) \<and>
   pinnedNote \<in> set (stored sampleStore) \<and> isProtectedItem pinnedNote \<and>
   timestamp pinnedNote < cutoffDate (defaultSettings\<lparr>maxItems := 1\<rparr>) 4000000002 \<and>
   cleanupOldItems 4000000002 sampleStore =
     Inr (sampleStore\<lparr>db := Some \<lparr>clipboardItems =
            [pinnedNote, capturedItem ''c'' ''third'' ''text'' 4000000001 ''Notes''],
            settings = Some (defaultSettings\<lparr>maxItems := 1\<rparr>)\<rparr>\<rparr>) \<and>
   (\<exists>s'. cleanupOldItems 4000000002 sampleStore = Inr s' \<and> pinnedNote \<in> set (stored s'))"
proof -
  have d: "db sampleStore = Some \<lparr>clipboardItems =
          [pinnedNote,
           capturedItem ''a'' ''first'' ''text'' 10 ''Notes'',
           capturedItem ''b'' ''second'' ''text'' 4000000000 ''Notes'',
           capturedItem ''c'' ''third'' ''text'' 4000000001 ''Notes''],
        settings = Some (defaultSettings\<lparr>maxItems := 1\<rparr>)\<rparr>"
    by (simp add: sampleStore_def)
  have h2: "distinct (map item_id (stored sampleStore))" by code_simp
  have h3: "pinnedNote \<in> set (stored sampleStore)" by code_simp
  have h4: "isProtectedItem pinnedNote" by code_simp
  have old: "timestamp pinnedNote < cutoffDate (defaultSettings\<lparr>maxItems := 1\<rparr>) 4000000002"
    by code_simp
  have run: "cleanupOldItems 4000000002 sampleStore =
     Inr (sampleStore\<lparr>db := Some \<lparr>clipboardItems =
            [pinnedNote, capturedItem ''c'' ''third'' ''text'' 4000000001 ''Notes''],
            settings = Some (defaultSettings\<lparr>maxItems := 1\<rparr>)\<rparr>\<rparr>)"
    by code_simp
  from cleanupOldItems_keeps_protected [OF d h2 h3 h4, of defaultSettings 4000000002]
  have "\<exists>s'. cleanupOldItems 4000000002 sampleStore = Inr s' \<and> pinnedNote \<in> set (stored s')"
    by blast
  with d h2 h3 h4 old run show ?thesis by simp
qed

lemma length_db_items:
  "length (sort_newest_first (idb_index_by_timestamp xs)) = length xs"
  by (simp add: sort_newest_first_def idb_index_by_timestamp_def)

lemma set_db_items:
  "set (sort_newest_first (idb_index_by_timestamp xs)) = set xs"
  by (simp add: sort_newest_first_def idb_index_by_timestamp_def)

lemma getClipboardItems_db_all:
  assumes "db s = Some d" and "length (clipboardItems d) \<le> n"
  shows "getClipboardItems n s = sort_newest_first (idb_index_by_timestamp (clipboardItems d))"
  using assms by (simp add: getClipboardItems_def length_db_items)

lemma find_unique:
  assumes "e \<in> set ys" and "P e" and "\<forall>x\<in>set ys. P x \<longrightarrow> x = e"
  shows "find P ys = Some e"
  using assms
proof (induction ys)
  case Nil
  then show ?case by simp
next
  case (Cons y ys)
  show ?case
  proof (cases "P y")
    case True
    with Cons.prems(3) have "y = e" by simp
    with True show ?thesis by simp
  next
    case False
    with Cons.prems(1,2) have "e \<in> set ys" by auto
    moreover have "\<forall>x\<in>set ys. P x \<longrightarrow> x = e" using Cons.prems(3) by simp
    ultimately have "find P ys = Some e" using Cons.IH Cons.prems(2) by blast
    with False show ?thesis by simp
  qed
qed

lemma findIndex_None: "findIndex P xs = None \<Longrightarrow> \<forall>x\<in>set xs. \<not> P x"
proof (induction xs)
  case Nil
  then show ?case by simp
next
  case (Cons x xs)
  then show ?case by (cases "P x") simp_all
qed

lemma findIndex_Some:
  "findIndex P xs = Some i \<Longrightarrow> i < length xs \<and> P (xs ! i)"
proof (induction xs arbitrary: i)
  case Nil
  then show ?case by simp
next
  case (Cons x xs)
  show ?case
  proof (cases "P x")
    case True
    with Cons.prems show ?thesis by simp
  next
    case False
    with Cons.prems obtain j where "findIndex P xs = Some j" "i = Suc j" by auto
    with Cons.IH [of j] show ?thesis by simp
  qed
qed

lemma split_at_item:
  assumes "distinct (map item_id xs)" and "e \<in> set xs"
  shows "\<exists>pre post. xs = pre @ e # post \<and>
           (\<forall>y\<in>set pre \<union> set post. item_id y \<noteq> item_id e)"
proof -
  from assms(2) obtain pre post where xs: "xs = pre @ e # post"
    by (meson split_list)
  with assms(1) have "item_id e \<notin> item_id ` set pre" "item_id e \<notin> item_id ` set post"
    by auto
  then have "\<forall>y\<in>set pre \<union> set post. item_id y \<noteq> item_id e"
    by (metis Un_iff imageI)
  with xs show ?thesis by blast
qed

lemma findClipboardItemByContent_unique:
  assumes "e \<in> set (stored s)"
      and "\<forall>x\<in>set (stored s). content x = content e \<longrightarrow> x = e"
      and "db s \<noteq> None \<longrightarrow> length (stored s) \<le> 1000"
  shows "findClipboardItemByContent (content e) s = Some e"
proof (cases "db s")
  case None
  with assms(1,2) show ?thesis
    by (simp add: findClipboardItemByContent_def stored_def find_unique)
next
  case (Some d)
  have "length (clipboardItems d) \<le> 1000"
    using assms(3) Some by (simp add: stored_def)
  then have "getClipboardItems 1000 s = sort_newest_first (idb_index_by_timestamp (clipboardItems d))"
    by (rule getClipboardItems_db_all [OF Some])
  then have "set (getClipboardItems 1000 s) = set (stored s)"
    using Some by (simp add: set_db_items stored_def)
  with assms(1,2) have "find (\<lambda>item. content item = content e) (getClipboardItems 1000 s) = Some e"
    by (intro find_unique) auto
  with Some show ?thesis by (simp add: findClipboardItemByContent_def)
qed

lemma idb_put_existing:
  assumes "\<forall>y\<in>set pre \<union> set post. item_id y \<noteq> item_id e" and "item_id m = item_id e"
  shows "idb_put m (pre @ e # post) = pre @ m # post"
proof -
  have "map (\<lambda>y. if item_id y = item_id m then m else y) ys = ys"
    if "\<forall>y\<in>set ys. item_id y \<noteq> item_id e" for ys
    using that assms(2) by (induction ys) auto
  with assms show ?thesis
    by (simp add: idb_put_def idb_keys_def)
qed

lemma findIndex_split:
  assumes "\<forall>y\<in>set pre. \<not> P y" and "P e"
  shows "findIndex P (pre @ e # post) = Some (length pre)"
  using assms by (induction pre) auto

lemma mergeItem_fields:
  "item_id (mergeItem e n) = item_id e" "content (mergeItem e n) = content e"
  "isPinned (mergeItem e n) = isPinned e" "categories (mergeItem e n) = categories e"
  "category (mergeItem e n) = category e" "metadata (mergeItem e n) = metadata e"
  "timestamp (mergeItem e n) = timestamp n"
  by (simp_all add: mergeItem_def)



lemma addClipboardItem_merge_shape:
  assumes "e \<in> set (stored s)" and "content n = content e"
      and "distinct (map item_id (stored s))"
      and "\<forall>x\<in>set (stored s). content x = content e \<longrightarrow> x = e"
      and "db s \<noteq> None \<longrightarrow> length (stored s) \<le> 1000"
  shows "\<exists>s' pre post. addClipboardItem now n s = Inr s' \<and> stored s = pre @ e # post \<and>
           (\<forall>y\<in>set pre \<union> set post. item_id y \<noteq> item_id e) \<and>
           (stored s' = pre @ mergeItem e n # post \<or> stored s' = mergeItem e n # pre @ post) \<and>
           map_option settings (db s') = map_option settings (db s)"
proof -
  obtain pre post where xs: "stored s = pre @ e # post"
    and ids: "\<forall>y\<in>set pre \<union> set post. item_id y \<noteq> item_id e"
    using split_at_item [OF assms(3) assms(1)] by blast
  have found: "findClipboardItemByContent (content n) s = Some e"
    using findClipboardItemByContent_unique [OF assms(1) assms(4) assms(5)] assms(2) by simp
  show ?thesis
  proof (cases "db s")
    case None
    then have ls: "localStorage s = pre @ e # post" using xs by (simp add: stored_def)
    have fi: "findIndex (\<lambda>i. item_id i = item_id e) (localStorage s) = Some (length pre)"
      unfolding ls using ids by (intro findIndex_split) auto
    have "addClipboardItem now n s = Inr (s\<lparr>localStorage := mergeItem e n # pre @ post\<rparr>)"
      using None found fi ls by (simp add: addClipboardItem_def Let_def)
    moreover have "stored (s\<lparr>localStorage := mergeItem e n # pre @ post\<rparr>) = mergeItem e n # pre @ post"
      using None by (simp add: stored_def)
    moreover have "map_option settings (db (s\<lparr>localStorage := mergeItem e n # pre @ post\<rparr>)) =
                   map_option settings (db s)"
      by simp
    ultimately show ?thesis using xs ids by blast
  next
    case (Some d)
    then have cs: "clipboardItems d = pre @ e # post" using xs by (simp add: stored_def)
    have "addClipboardItem now n s = Inr (updateClipboardItem (mergeItem e n) s)"
      using Some found by (simp add: addClipboardItem_def Let_def)
    moreover have "stored (updateClipboardItem (mergeItem e n) s) = pre @ mergeItem e n # post"
      using Some cs idb_put_existing [OF ids mergeItem_fields(1)]
      by (simp add: updateClipboardItem_def stored_def)
    moreover have "map_option settings (db (updateClipboardItem (mergeItem e n) s)) =
                   map_option settings (db s)"
      using Some by (simp add: updateClipboardItem_def)
    ultimately show ?thesis using xs ids by blast
  qed
qed



lemma insort_key_snoc:
  "\<forall>y\<in>set ys. f y < f x \<Longrightarrow> insort_key f x ys = ys @ [x]"
proof (induction ys)
  case Nil
  then show ?case by simp
next
  case (Cons y ys)
  then have "\<not> f x \<le> f y" by auto
  with Cons show ?case by simp
qed

lemma sort_key_rev_strict:
  "sorted_wrt (\<lambda>a b. f b < f a) xs \<Longrightarrow> sort_key f xs = rev xs"
proof (induction xs)
  case Nil
  then show ?case by simp
next
  case (Cons x xs)
  then have "sort_key f xs = rev xs" and "\<forall>y\<in>set (rev xs). f y < f x" by auto
  then show ?case by (simp add: insort_key_snoc)
qed

lemma seriesItem_fields:
  "timestamp (seriesItem k) = int k"
  "content (seriesItem k) = replicate (Suc k) CHR ''a''"
  "item_id (seriesItem k) = ''clipboard-'' @ replicate k CHR ''x''"
  "\<not> isProtectedItem (seriesItem k)"
  by (simp_all add: seriesItem_def capturedItem_def isProtectedItem_def)

lemma series_index_order:
  "idb_index_by_timestamp (map seriesItem [m..<n]) = map seriesItem [m..<n]"
proof -
  have "sorted_wrt (\<lambda>x y. (timestamp (seriesItem x), item_id (seriesItem x))
                         \<le> (timestamp (seriesItem y), item_id (seriesItem y))) [m..<n]"
    by (rule sorted_wrt_mono_rel [of _ "(<)"])
       (simp_all add: seriesItem_fields less_eq_prod_def)
  then have "sorted (map (\<lambda>i. (timestamp i, item_id i)) (map seriesItem [m..<n]))"
    by (simp add: sorted_wrt_map)
  then show ?thesis
    unfolding idb_index_by_timestamp_def by (rule sort_key_id_if_sorted)
qed

lemma series_newest_first:
  "sort_newest_first (map seriesItem [m..<n]) = rev (map seriesItem [m..<n])"
proof -
  have "sorted_wrt (\<lambda>x y. - timestamp (seriesItem y) < - timestamp (seriesItem x)) [m..<n]"
    by (rule sorted_wrt_mono_rel [of _ "(<)"]) (simp_all add: seriesItem_fields)
  then have "sorted_wrt (\<lambda>a b. - timestamp b < - timestamp a) (map seriesItem [m..<n])"
    by (simp add: sorted_wrt_map)
  then show ?thesis
    unfolding sort_newest_first_def by (rule sort_key_rev_strict)
qed


lemma deleteAll_Nil: "deleteAll [] s = s"
  by (simp add: deleteAll_def)

lemma cleanupOldItems_noop:
  assumes "db s = Some d" and "settings d = Some st" and "1000 \<le> maxItems st"
      and "\<forall>x\<in>set (stored s). cutoffDate st now \<le> timestamp x"
  shows "cleanupOldItems now s = Inr s"
proof -
  let ?items = "getClipboardItems 1000 s"
  have gs: "getSettings s = Inr (st, s)"
    using assms(1,2) by (simp add: getSettings_def)
  have "length ?items \<le> 1000"
    using assms(1) by (simp add: getClipboardItems_def)
  with assms(3) have "\<not> int (length ?items) > maxItems st" by linarith
  then have c: "countPass st ?items s = s" by (simp add: countPass_def)
  have "\<forall>x\<in>set ?items. \<not> timestamp x < cutoffDate st now"
    using assms(4) set_getClipboardItems [of 1000 s] by fastforce
  then have "filter (\<lambda>item. timestamp item < cutoffDate st now \<and> \<not> isProtectedItem item) ?items = []"
    by (simp add: filter_empty_conv)
  then have a: "agePass st now ?items s = s"
    by (simp add: agePass_def deleteAll_Nil)
  show ?thesis
    using assms(1) gs c a by (simp add: cleanupOldItems_def Let_def)
qed

lemma findClipboardItemByContent_absent:
  assumes "\<forall>x\<in>set (stored s). content x \<noteq> c"
  shows "findClipboardItemByContent c s = None"
proof (cases "db s")
  case None
  with assms show ?thesis
    by (simp add: findClipboardItemByContent_def stored_def find_None_iff)
next
  case (Some d)
  have "\<forall>x\<in>set (getClipboardItems 1000 s). content x \<noteq> c"
    using assms set_getClipboardItems [of 1000 s] by blast
  with Some show ?thesis
    by (simp add: findClipboardItemByContent_def find_None_iff)
qed

lemma cutoff_settings1000: "cutoffDate settings1000 2000 < 0"
  by (simp add: cutoffDate_def settings1000_def defaultSettings_def)

lemma stored_seriesStore: "stored (seriesStore n) = map seriesItem [0..<n]"
  by (simp add: seriesStore_def stored_def)

lemma addClipboardItem_fresh_db:
  assumes "db s = Some d" and "settings d = Some st" and "1000 \<le> maxItems st"
      and "findClipboardItemByContent (content item) s = None"
      and "item_id item \<notin> item_id ` set (clipboardItems d)"
      and "\<forall>x\<in>set (clipboardItems d @ [item]). cutoffDate st now \<le> timestamp x"
  shows "addClipboardItem now item s =
         Inr (s\<lparr>db := Some (d\<lparr>clipboardItems := clipboardItems d @ [item]\<rparr>)\<rparr>)"
proof -
  let ?s1 = "s\<lparr>db := Some (d\<lparr>clipboardItems := clipboardItems d @ [item]\<rparr>)\<rparr>"
  have add: "idb_add item (clipboardItems d) = Inr (clipboardItems d @ [item])"
    using assms(5) by (simp add: idb_add_def idb_keys_def)
  have "cleanupOldItems now ?s1 = Inr ?s1"
    by (rule cleanupOldItems_noop [where d = "d\<lparr>clipboardItems := clipboardItems d @ [item]\<rparr>" and st = st])
       (use assms in \<open>simp_all add: stored_def\<close>)
  with assms(1,4) add show ?thesis
    by (simp add: addClipboardItem_def)
qed


lemma series_step:
  "addClipboardItem 2000 (seriesItem n) (seriesStore n) = Inr (seriesStore (Suc n))"
proof -
  let ?d = "\<lparr>clipboardItems = map seriesItem [0..<n], settings = Some settings1000\<rparr>"
  have absent: "findClipboardItemByContent (content (seriesItem n)) (seriesStore n) = None"
    by (rule findClipboardItemByContent_absent)
       (simp add: stored_seriesStore seriesItem_fields)
  have fresh: "item_id (seriesItem n) \<notin> item_id ` set (clipboardItems ?d)"
    by (auto simp: seriesItem_fields)
  have recent: "\<forall>x\<in>set (clipboardItems ?d @ [seriesItem n]). cutoffDate settings1000 2000 \<le> timestamp x"
    using cutoff_settings1000 by (auto simp: seriesItem_fields)
  have "addClipboardItem 2000 (seriesItem n) (seriesStore n) =
        Inr ((seriesStore n)\<lparr>db := Some (?d\<lparr>clipboardItems := clipboardItems ?d @ [seriesItem n]\<rparr>)\<rparr>)"
    by (rule addClipboardItem_fresh_db [where st = settings1000, OF _ _ _ absent fresh recent])
       (simp_all add: seriesStore_def settings1000_def)
  then show ?thesis by (simp add: seriesStore_def)
qed

lemma ingestAll_append:
  "ingestAll (evs @ evs') s = ingestAll evs' (ingestAll evs s)"
proof (induction evs arbitrary: s)
  case Nil
  then show ?case by simp
next
  case (Cons ev evs)
  obtain now item where ev: "ev = (now, item)" by (cases ev)
  show ?case
    unfolding ev by (cases "addClipboardItem now item s") (simp_all add: Cons.IH)
qed

lemma series_ingest:
  "ingestAll (map (\<lambda>k. (2000, seriesItem k)) [0..<n]) (seriesStore 0) = seriesStore n"
proof (induction n)
  case 0
  show ?case by simp
next
  case (Suc n)
  then show ?case by (simp add: ingestAll_append series_step)
qed

lemma series_window:
  "getClipboardItems 1000 (seriesStore 1001) = rev (map seriesItem [1..<1001])"
proof -
  have "take 1000 (rev (map seriesItem [0..<1001])) = rev (drop 1 (map seriesItem [0..<1001]))"
    by (simp add: take_rev)
  also have "drop 1 (map seriesItem [0..<1001]) = map seriesItem [1..<1001]"
    by (simp add: drop_map)
  finally show ?thesis
    by (simp add: getClipboardItems_def seriesStore_def series_index_order series_newest_first)
qed

lemma recopy_not_found:
  "findClipboardItemByContent (content recopyItem) (seriesStore 1001) = None"
proof -
  have "\<forall>x\<in>set (rev (map seriesItem [1..<1001])). content x \<noteq> content recopyItem"
    by (auto simp: seriesItem_fields recopyItem_def capturedItem_def)
  then have "find (\<lambda>item. content item = content recopyItem) (getClipboardItems 1000 (seriesStore 1001)) = None"
    unfolding series_window by (simp add: find_None_iff)
  then show ?thesis
    by (simp add: findClipboardItemByContent_def seriesStore_def)
qed

lemma recopy_inserted:
  "addClipboardItem 2000 recopyItem (seriesStore 1001) =
   Inr ((seriesStore 1001)\<lparr>db := Some \<lparr>clipboardItems = map seriesItem [0..<1001] @ [recopyItem],
                                         settings = Some settings1000\<rparr>\<rparr>)"
proof -
  let ?d = "\<lparr>clipboardItems = map seriesItem [0..<1001], settings = Some settings1000\<rparr>"
  have fresh: "item_id recopyItem \<notin> item_id ` set (clipboardItems ?d)"
    by (auto simp: seriesItem_fields recopyItem_def capturedItem_def)
  have recent: "\<forall>x\<in>set (clipboardItems ?d @ [recopyItem]). cutoffDate settings1000 2000 \<le> timestamp x"
    using cutoff_settings1000 by (auto simp: seriesItem_fields recopyItem_def capturedItem_def)
  have "addClipboardItem 2000 recopyItem (seriesStore 1001) =
        Inr ((seriesStore 1001)\<lparr>db := Some (?d\<lparr>clipboardItems := clipboardItems ?d @ [recopyItem]\<rparr>)\<rparr>)"
    by (rule addClipboardItem_fresh_db [where st = settings1000, OF _ _ _ recopy_not_found fresh recent])
       (simp_all add: seriesStore_def settings1000_def)
  then show ?thesis by simp
qed




lemma recopy_result:
  "addClipboardItem 2000 recopyItem (seriesStore 1001) = Inr recopiedStore"
  unfolding recopy_inserted by (simp add: recopiedStore_def seriesStore_def)

lemma series_member: "k < n \<Longrightarrow> seriesItem k \<in> set (map seriesItem [0..<n])"
  by simp


theorem dedup_counterexample:
  "stored (seriesStore 0) = [] \<and>
   stored (ingestAll (seriesEvents 1001 @ [(2000, recopyItem)]) (seriesStore 0)) =
     map seriesItem [0..<1001] @ [recopyItem] \<and>
   \<not> distinct (map content (stored (ingestAll (seriesEvents 1001 @ [(2000, recopyItem)]) (seriesStore 0))))"
proof -
  have run: "ingestAll (seriesEvents 1001 @ [(2000, recopyItem)]) (seriesStore 0) = recopiedStore"
    unfolding ingestAll_append seriesEvents_def series_ingest
    by (simp add: recopy_result)
  have b: "stored recopiedStore = map seriesItem [0..<1001] @ [recopyItem]"
    by (simp add: recopiedStore_def stored_def)
  have c: "seriesItem 0 \<in> set (map seriesItem [0..<1001])"
    by (rule series_member) simp
  have d: "content recopyItem = content (seriesItem 0)"
    by (simp add: seriesItem_fields recopyItem_def capturedItem_def)
  have "content recopyItem \<in> content ` set (map seriesItem [0..<1001])"
    unfolding d using c by (rule imageI)
  then have "\<not> distinct (map content (map seriesItem [0..<1001] @ [recopyItem]))"
    by (simp del: map_map)
  then show ?thesis
    unfolding run b by (simp add: stored_seriesStore)
qed

lemma distinct_items:
  "distinct (map item_id xs) \<Longrightarrow> distinct xs"
  by (simp add: distinct_map)

lemma filter_ids_eq:
  assumes "distinct (map item_id xs)" and "set ds \<subseteq> set xs"
  shows "filter (\<lambda>y. item_id y \<notin> item_id ` set ds) xs = filter (\<lambda>y. y \<notin> set ds) xs"
proof (rule filter_cong [OF refl])
  fix y assume y: "y \<in> set xs"
  show "(item_id y \<notin> item_id ` set ds) = (y \<notin> set ds)"
  proof
    assume "item_id y \<notin> item_id ` set ds"
    then show "y \<notin> set ds" by blast
  next
    assume n: "y \<notin> set ds"
    show "item_id y \<notin> item_id ` set ds"
    proof
      assume "item_id y \<in> item_id ` set ds"
      then obtain z where z: "z \<in> set ds" "item_id y = item_id z" by blast
      with assms(2) have "z \<in> set xs" by blast
      with assms(1) y z(2) have "y = z" by (intro distinct_ids_eq [of xs]) auto
      with z(1) n show False by simp
    qed
  qed
qed

lemma stored_deleteAll_set:
  assumes "db s \<noteq> None" and "distinct (map item_id (stored s))" and "set ds \<subseteq> set (stored s)"
  shows "stored (deleteAll ds s) = filter (\<lambda>y. y \<notin> set ds) (stored s)"
  using stored_deleteAll [OF assms(1)] filter_ids_eq [OF assms(2,3)] by simp

lemma length_stored_deleteAll:
  "db s \<noteq> None \<Longrightarrow> length (stored (deleteAll ds s)) \<le> length (stored s)"
  by (simp add: stored_deleteAll)

lemma db_items_sorted:
  "sorted (map (\<lambda>i. - timestamp i) (sort_newest_first (idb_index_by_timestamp xs)))"
  by (simp add: sort_newest_first_def)

lemma db_items_distinct:
  "distinct xs \<Longrightarrow> distinct (sort_newest_first (idb_index_by_timestamp xs))"
  by (simp add: sort_newest_first_def idb_index_by_timestamp_def)

lemma window_whole:
  assumes "db s = Some d" and "distinct (map item_id (stored s))" and "length (stored s) \<le> 1000"
  shows "set (getClipboardItems 1000 s) = set (stored s)"
    and "distinct (getClipboardItems 1000 s)"
    and "length (getClipboardItems 1000 s) = length (stored s)"
    and "sorted (map (\<lambda>i. - timestamp i) (getClipboardItems 1000 s))"
proof -
  have len: "length (clipboardItems d) \<le> 1000" and st: "stored s = clipboardItems d"
    using assms(1,3) by (simp_all add: stored_def)
  have eq: "getClipboardItems 1000 s = sort_newest_first (idb_index_by_timestamp (clipboardItems d))"
    by (rule getClipboardItems_db_all [OF assms(1) len])
  show "set (getClipboardItems 1000 s) = set (stored s)"
    unfolding eq st by (rule set_db_items)
  show "distinct (getClipboardItems 1000 s)"
    unfolding eq using assms(2) st by (intro db_items_distinct distinct_items) simp
  show "length (getClipboardItems 1000 s) = length (stored s)"
    unfolding eq st by (rule length_db_items)
  show "sorted (map (\<lambda>i. - timestamp i) (getClipboardItems 1000 s))"
    unfolding eq by (rule db_items_sorted)
qed

lemma countPass_eq:
  assumes "0 \<le> maxItems st"
  shows "countPass st items s =
         deleteAll (drop (nat (maxItems st)) (filter (\<lambda>item. \<not> isProtectedItem item) items)) s"
proof (cases "int (length items) > maxItems st")
  case True
  with assms show ?thesis by (simp add: countPass_def js_slice_from_def)
next
  case False
  have "length (filter (\<lambda>item. \<not> isProtectedItem item) items) \<le> length items"
    by (rule length_filter_le)
  moreover from False assms have "length items \<le> nat (maxItems st)" by linarith
  ultimately have "length (filter (\<lambda>item. \<not> isProtectedItem item) items) \<le> nat (maxItems st)"
    by linarith
  then have "drop (nat (maxItems st)) (filter (\<lambda>item. \<not> isProtectedItem item) items) = []"
    by simp
  with False show ?thesis by (simp add: countPass_def deleteAll_Nil)
qed


lemma countPass_set:
  assumes "db s = Some d" and "0 \<le> maxItems st"
      and "distinct (map item_id (stored s))" and "length (stored s) \<le> 1000"
  shows "stored (countPass st (getClipboardItems 1000 s) s) =
         filter (\<lambda>y. y \<notin> set (drop (nat (maxItems st))
                   (filter (\<lambda>item. \<not> isProtectedItem item) (getClipboardItems 1000 s))))
           (stored s)"
proof -
  let ?ds = "drop (nat (maxItems st)) (filter (\<lambda>item. \<not> isProtectedItem item) (getClipboardItems 1000 s))"
  have "set ?ds \<subseteq> set (getClipboardItems 1000 s)"
    by (meson filter_is_subset set_drop_subset subset_trans)
  then have sub: "set ?ds \<subseteq> set (stored s)"
    using set_getClipboardItems [of 1000 s] by blast
  have "db s \<noteq> None" using assms(1) by simp
  then show ?thesis
    unfolding countPass_eq [OF assms(2)] using assms(3) sub by (rule stored_deleteAll_set)
qed

lemma countPass_evictable_bound:
  assumes "db s = Some d" and "0 \<le> maxItems st"
      and "distinct (map item_id (stored s))" and "length (stored s) \<le> 1000"
  shows "length (filter (\<lambda>i. \<not> isProtectedItem i) (stored (countPass st (getClipboardItems 1000 s) s)))
         \<le> nat (maxItems st)"
proof -
  let ?items = "getClipboardItems 1000 s"
  let ?ev = "filter (\<lambda>item. \<not> isProtectedItem item) ?items"
  let ?m = "nat (maxItems st)"
  let ?kept = "filter (\<lambda>i. \<not> isProtectedItem i) (stored (countPass st ?items s))"
  have st: "stored (countPass st ?items s) = filter (\<lambda>y. y \<notin> set (drop ?m ?ev)) (stored s)"
    by (rule countPass_set [OF assms])
  have dist: "distinct ?kept"
    unfolding st using distinct_items [OF assms(3)] by simp
  have whole: "set ?items = set (stored s)"
    by (rule window_whole(1) [OF assms(1,3,4)])
  have "set ?kept \<subseteq> set (take ?m ?ev)"
  proof
    fix x assume "x \<in> set ?kept"
    then have x: "x \<in> set (stored s)" "\<not> isProtectedItem x" "x \<notin> set (drop ?m ?ev)"
      unfolding st by auto
    from x(1,2) whole have "x \<in> set ?ev" by simp
    moreover have "set ?ev = set (take ?m ?ev) \<union> set (drop ?m ?ev)"
      by (metis append_take_drop_id set_append)
    ultimately show "x \<in> set (take ?m ?ev)" using x(3) by blast
  qed
  then have "card (set ?kept) \<le> card (set (take ?m ?ev))"
    by (intro card_mono) simp_all
  also have "\<dots> \<le> length (take ?m ?ev)" by (rule card_length)
  also have "\<dots> \<le> ?m" by simp
  finally have "card (set ?kept) \<le> ?m" .
  then show ?thesis unfolding distinct_card [OF dist] .
qed

lemma evicted_are_oldest:
  assumes "sorted (map (\<lambda>i. - timestamp i) items)"
  shows "\<forall>x\<in>set (drop m (filter P items)). \<forall>y\<in>set (take m (filter P items)).
           timestamp x \<le> timestamp y"
proof -
  have "sorted (map (\<lambda>i. - timestamp i) (filter P items))"
    using assms by (rule sorted_filter)
  then have "sorted (map (\<lambda>i. - timestamp i) (take m (filter P items) @ drop m (filter P items)))"
    by simp
  then have "\<forall>y\<in>set (take m (filter P items)). \<forall>x\<in>set (drop m (filter P items)).
               - timestamp y \<le> - timestamp x"
    unfolding map_append sorted_append by auto
  then show ?thesis by auto
qed


lemma cleanupOldItems_eq:
  assumes "db s = Some d" and "settings d = Some st"
  shows "cleanupOldItems now s =
         Inr (agePass st now (getClipboardItems 1000 s) (countPass st (getClipboardItems 1000 s) s))"
proof -
  have "getSettings s = Inr (st, s)"
    using assms by (simp add: getSettings_def)
  with assms(1) show ?thesis by (simp add: cleanupOldItems_def Let_def)
qed

lemma cleanup_total_bound:
  assumes "db s = Some d" and "settings d = Some st" and "0 \<le> maxItems st"
      and "distinct (map item_id (stored s))" and "length (stored s) \<le> 1000"
      and "\<forall>x\<in>set (stored s). \<not> isProtectedItem x"
  shows "\<exists>s'. cleanupOldItems now s = Inr s' \<and> int (length (stored s')) \<le> maxItems st"
proof -
  let ?items = "getClipboardItems 1000 s"
  let ?s1 = "countPass st ?items s"
  have b: "length (filter (\<lambda>i. \<not> isProtectedItem i) (stored ?s1)) \<le> nat (maxItems st)"
    by (rule countPass_evictable_bound [OF assms(1,3,4,5)])
  have "stored ?s1 = filter (\<lambda>y. y \<notin> set (drop (nat (maxItems st))
                   (filter (\<lambda>item. \<not> isProtectedItem item) ?items))) (stored s)"
    by (rule countPass_set [OF assms(1,3,4,5)])
  then have "set (stored ?s1) \<subseteq> set (stored s)" by auto
  with assms(6) have "\<forall>x\<in>set (stored ?s1). \<not> isProtectedItem x" by blast
  then have "filter (\<lambda>i. \<not> isProtectedItem i) (stored ?s1) = stored ?s1"
    by (simp add: filter_id_conv)
  with b have l1: "length (stored ?s1) \<le> nat (maxItems st)" by simp
  have "db s \<noteq> None" using assms(1) by simp
  then have "db ?s1 \<noteq> None" by (rule countPass_db)
  then have "length (stored (agePass st now ?items ?s1)) \<le> length (stored ?s1)"
    unfolding agePass_def by (rule length_stored_deleteAll)
  with l1 assms(3) have "int (length (stored (agePass st now ?items ?s1))) \<le> maxItems st"
    by linarith
  then show ?thesis
    unfolding cleanupOldItems_eq [OF assms(1,2)] by simp
qed

lemma single_eviction:
  assumes "db s = Some d" and "settings d = Some st" and "0 \<le> maxItems st"
      and "distinct (map item_id (stored s))" and "length (stored s) \<le> 1000"
      and "\<forall>x\<in>set (stored s). \<not> isProtectedItem x \<and> cutoffDate st now \<le> timestamp x"
      and "int (length (stored s)) = maxItems st + 1"
  shows "cleanupOldItems now s = Inr (deleteClipboardItem (item_id (last (getClipboardItems 1000 s))) s)"
    and "stored (deleteClipboardItem (item_id (last (getClipboardItems 1000 s))) s) =
           filter (\<lambda>y. y \<noteq> last (getClipboardItems 1000 s)) (stored s)"
    and "last (getClipboardItems 1000 s) \<in> set (stored s)"
    and "\<forall>x\<in>set (stored s). timestamp (last (getClipboardItems 1000 s)) \<le> timestamp x"
proof -
  let ?items = "getClipboardItems 1000 s"
  let ?m = "nat (maxItems st)"
  have whole: "set ?items = set (stored s)" and len: "length ?items = length (stored s)"
    and srt: "sorted (map (\<lambda>i. - timestamp i) ?items)"
    using window_whole [OF assms(1,4,5)] by blast+
  have lenm: "length ?items = Suc ?m" using len assms(3,7) by linarith
  then have ne: "?items \<noteq> []" by auto
  have ev: "filter (\<lambda>item. \<not> isProtectedItem item) ?items = ?items"
    using assms(6) whole by (simp add: filter_id_conv)
  have "drop ?m ?items = [last ?items]"
  proof -
    have "?items = butlast ?items @ [last ?items]" using ne by simp
    moreover have "length (butlast ?items) = ?m" using lenm by simp
    ultimately show ?thesis by (metis append_eq_conv_conj)
  qed
  then have c: "countPass st ?items s = deleteClipboardItem (item_id (last ?items)) s"
    unfolding countPass_eq [OF assms(3)] ev by (simp add: deleteAll_def)
  have "filter (\<lambda>item. timestamp item < cutoffDate st now \<and> \<not> isProtectedItem item) ?items = []"
    using assms(6) whole by (auto simp: filter_empty_conv)
  then have a: "agePass st now ?items t = t" for t
    by (simp add: agePass_def deleteAll_Nil)
  show "cleanupOldItems now s = Inr (deleteClipboardItem (item_id (last ?items)) s)"
    unfolding cleanupOldItems_eq [OF assms(1,2)] a c by simp
  show mem: "last ?items \<in> set (stored s)"
    using ne whole last_in_set by blast
  have "db s \<noteq> None" using assms(1) by simp
  then have "stored (deleteAll [last ?items] s) = filter (\<lambda>y. y \<notin> set [last ?items]) (stored s)"
    using assms(4) mem by (intro stored_deleteAll_set) simp_all
  then show "stored (deleteClipboardItem (item_id (last ?items)) s) =
           filter (\<lambda>y. y \<noteq> last ?items) (stored s)"
    by (simp add: deleteAll_def)
  show "\<forall>x\<in>set (stored s). timestamp (last ?items) \<le> timestamp x"
  proof
    fix x assume "x \<in> set (stored s)"
    then have "x \<in> set ?items" using whole by simp
    then have "x \<in> set (butlast ?items) \<or> x = last ?items"
      using ne by (metis append_butlast_last_id rotate1.simps(2) set_ConsD set_rotate1)
    moreover have "sorted (map (\<lambda>i. - timestamp i) (butlast ?items @ [last ?items]))"
      using srt ne by simp
    then have "\<forall>y\<in>set (butlast ?items). - timestamp y \<le> - timestamp (last ?items)"
      unfolding map_append sorted_append by simp
    ultimately show "timestamp (last ?items) \<le> timestamp x" by auto
  qed
qed

text \<open>
  Claim C3 (count-based eviction), as amended. For an opened database with one record per
  id, at most 1000 records and a maximum \<open>m \<ge> 0\<close>: the count pass deletes exactly the
  evictable items beyond the \<open>m\<close> newest evictable ones; each deleted item is at most as
  recent as each evictable item kept; at most \<open>m\<close> evictable items remain. Protected
  items are not counted against the maximum. When the store holds no protected item, the
  whole clean-up leaves at most \<open>m\<close> items; when it then holds \<open>m + 1\<close> items, none
  past the age cut-off (101 items for \<open>m = 100\<close>), the clean-up is exactly one deletion,
  that of the oldest item.
\<close>

theorem count_eviction_postcondition:
  assumes "db s = Some d" and "settings d = Some st" and "0 \<le> maxItems st"
      and "distinct (map item_id (stored s))" and "length (stored s) \<le> 1000"
      and "items = getClipboardItems 1000 s"
      and "deletable = filter (\<lambda>item. \<not> isProtectedItem item) items"
  shows "stored (countPass st items s) =
           filter (\<lambda>y. y \<notin> set (drop (nat (maxItems st)) deletable)) (stored s) \<and>
         (\<forall>x\<in>set (drop (nat (maxItems st)) deletable).
            \<forall>y\<in>set (take (nat (maxItems st)) deletable). timestamp x \<le> timestamp y) \<and>
         length (filter (\<lambda>i. \<not> isProtectedItem i) (stored (countPass st items s)))
           \<le> nat (maxItems st) \<and>
         ((\<forall>x\<in>set (stored s). \<not> isProtectedItem x) \<longrightarrow>
            (\<exists>s'. cleanupOldItems now s = Inr s' \<and> int (length (stored s')) \<le> maxItems st)) \<and>
         ((\<forall>x\<in>set (stored s). \<not> isProtectedItem x \<and> cutoffDate st now \<le> timestamp x) \<and>
          int (length (stored s)) = maxItems st + 1 \<longrightarrow>
            cleanupOldItems now s = Inr (deleteClipboardItem (item_id (last items)) s) \<and>
            stored (deleteClipboardItem (item_id (last items)) s) =
              filter (\<lambda>y. y \<noteq> last items) (stored s) \<and>
            last items \<in> set (stored s) \<and>
            (\<forall>x\<in>set (stored s). timestamp (last items) \<le> timestamp x))"
proof -
  have a: "stored (countPass st items s) =
           filter (\<lambda>y. y \<notin> set (drop (nat (maxItems st)) deletable)) (stored s)"
    unfolding assms(6,7) by (rule countPass_set [OF assms(1,3,4,5)])
  have "sorted (map (\<lambda>i. - timestamp i) items)"
    unfolding assms(6) by (rule window_whole(4) [OF assms(1,4,5)])
  then have b: "\<forall>x\<in>set (drop (nat (maxItems st)) deletable).
            \<forall>y\<in>set (take (nat (maxItems st)) deletable). timestamp x \<le> timestamp y"
    unfolding assms(7) by (rule evicted_are_oldest)
  have c: "length (filter (\<lambda>i. \<not> isProtectedItem i) (stored (countPass st items s)))
           \<le> nat (maxItems st)"
    unfolding assms(6) by (rule countPass_evictable_bound [OF assms(1,3,4,5)])
  have d: "(\<forall>x\<in>set (stored s). \<not> isProtectedItem x) \<longrightarrow>
            (\<exists>s'. cleanupOldItems now s = Inr s' \<and> int (length (stored s')) \<le> maxItems st)"
    using cleanup_total_bound [OF assms(1,2,3,4,5)] by blast
  have e: "(\<forall>x\<in>set (stored s). \<not> isProtectedItem x \<and> cutoffDate st now \<le> timestamp x) \<and>
          int (length (stored s)) = maxItems st + 1 \<longrightarrow>
            cleanupOldItems now s = Inr (deleteClipboardItem (item_id (last items)) s) \<and>
            stored (deleteClipboardItem (item_id (last items)) s) =
              filter (\<lambda>y. y \<noteq> last items) (stored s) \<and>
            last items \<in> set (stored s) \<and>
            (\<forall>x\<in>set (stored s). timestamp (last items) \<le> timestamp x)"
    unfolding assms(6) using single_eviction [OF assms(1,2,3,4,5)] by blast
  from a b c d e show ?thesis by blast
qed


lemma series_distinct_ids: "distinct (map item_id (map seriesItem [m..<n]))"
proof -
  have "inj_on (\<lambda>k. item_id (seriesItem k)) (set [m..<n])"
  proof (rule inj_onI)
    fix j k assume "item_id (seriesItem j) = item_id (seriesItem k)"
    then have "length (replicate j CHR ''x'') = length (replicate k CHR ''x'')"
      unfolding seriesItem_fields by simp
    then show "j = k" by simp
  qed
  then have "distinct (map (\<lambda>k. item_id (seriesItem k)) [m..<n])"
    by (simp add: distinct_map)
  then show ?thesis by (simp add: comp_def)
qed

lemma fullStore_window:
  "getClipboardItems 1000 fullStore = rev (map seriesItem [0..<101])"
  by (simp add: getClipboardItems_def fullStore_def series_index_order series_newest_first)

lemma fullStore_oldest_deleted:
  "stored (deleteClipboardItem (item_id (seriesItem 0)) fullStore) = map seriesItem [1..<101]"
proof -
  have first: "[0..<101] = 0 # [1..<101]" by (simp add: upt_conv_Cons)
  have "\<forall>y\<in>set (map seriesItem [1..<101]). item_id y \<noteq> item_id (seriesItem 0)"
    by (auto simp: seriesItem_fields)
  then have "filter (\<lambda>y. item_id y \<noteq> item_id (seriesItem 0)) (map seriesItem [1..<101]) =
             map seriesItem [1..<101]"
    by (simp only: filter_id_conv) 
  then show ?thesis
    by (simp add: deleteClipboardItem_def fullStore_def stored_def idb_delete_def first del: upt_Suc)
qed

theorem count_eviction_postcondition_witness:
  "length (stored fullStore) = 101 \<and> maxItems settings100 = 100 \<and>
   last (getClipboardItems 1000 fullStore) = seriesItem 0 \<and>
   cleanupOldItems 2000 fullStore = Inr (deleteClipboardItem (item_id (seriesItem 0)) fullStore) \<and>
   stored (deleteClipboardItem (item_id (seriesItem 0)) fullStore) = map seriesItem [1..<101]"
proof -
  let ?d = "\<lparr>clipboardItems = map seriesItem [0..<101], settings = Some settings100\<rparr>"
  have h1: "db fullStore = Some ?d" by (simp add: fullStore_def)
  have h2: "settings ?d = Some settings100" by simp
  have m: "maxItems settings100 = 100" by (simp add: settings100_def)
  have h3: "0 \<le> maxItems settings100" by (simp add: m)
  have st: "stored fullStore = map seriesItem [0..<101]" by (simp add: fullStore_def stored_def)
  have h4: "distinct (map item_id (stored fullStore))"
    unfolding st by (rule series_distinct_ids)
  have h5: "length (stored fullStore) \<le> 1000" by (simp add: st)
  have cut: "cutoffDate settings100 2000 < 0"
    by (simp add: cutoffDate_def settings100_def defaultSettings_def)
  have h8: "\<forall>x\<in>set (stored fullStore). \<not> isProtectedItem x \<and> cutoffDate settings100 2000 \<le> timestamp x"
    unfolding st using cut by (auto simp: seriesItem_fields)
  have h9: "int (length (stored fullStore)) = maxItems settings100 + 1" by (simp add: st m)
  have l: "last (getClipboardItems 1000 fullStore) = seriesItem 0"
    unfolding fullStore_window by (simp add: last_rev hd_map upt_conv_Cons del: upt_Suc)
  from count_eviction_postcondition [OF h1 h2 h3 h4 h5 refl refl, of 2000] h8 h9
  have "cleanupOldItems 2000 fullStore =
        Inr (deleteClipboardItem (item_id (last (getClipboardItems 1000 fullStore))) fullStore)"
    by blast
  then have "cleanupOldItems 2000 fullStore = Inr (deleteClipboardItem (item_id (seriesItem 0)) fullStore)"
    unfolding l .
  with l m st fullStore_oldest_deleted show ?thesis by simp
qed

theorem count_eviction_counterexample:
  "maxItems (defaultSettings\<lparr>maxItems := 2\<rparr>) < int (length (stored crowdedStore)) \<and>
   cleanupOldItems 100 crowdedStore = Inr crowdedStore \<and>
   capturedItem ''a'' ''first'' ''text'' 10 ''Notes'' \<in> set (stored crowdedStore) \<and>
   \<not> isProtectedItem (capturedItem ''a'' ''first'' ''text'' 10 ''Notes'')"
  by code_simp

lemma deleteAll_db_shape:
  "db s = Some d \<Longrightarrow>
   deleteAll ds s =
     s\<lparr>db := Some (d\<lparr>clipboardItems := filter (\<lambda>y. item_id y \<notin> item_id ` set ds) (clipboardItems d)\<rparr>)\<rparr>"
proof (induction ds arbitrary: s d)
  case Nil
  then show ?case by (simp add: deleteAll_Nil)
next
  case (Cons x ds)
  let ?d1 = "d\<lparr>clipboardItems := idb_delete (item_id x) (clipboardItems d)\<rparr>"
  have s1: "deleteClipboardItem (item_id x) s = s\<lparr>db := Some ?d1\<rparr>"
    using Cons.prems by (simp add: deleteClipboardItem_def)
  have "db (s\<lparr>db := Some ?d1\<rparr>) = Some ?d1" by simp
  from Cons.IH [OF this]
  have "deleteAll ds (s\<lparr>db := Some ?d1\<rparr>) =
        s\<lparr>db := Some (d\<lparr>clipboardItems :=
              filter (\<lambda>y. item_id y \<notin> item_id ` set ds) (idb_delete (item_id x) (clipboardItems d))\<rparr>)\<rparr>"
    by simp
  moreover have "filter (\<lambda>y. item_id y \<notin> item_id ` set ds) (idb_delete (item_id x) (clipboardItems d)) =
                 filter (\<lambda>y. item_id y \<notin> item_id ` set (x # ds)) (clipboardItems d)"
    unfolding idb_delete_def filter_filter by (rule filter_cong) auto
  ultimately show ?case
    unfolding deleteAll_Cons s1 by simp
qed

lemma getSettings_effective:
  assumes "db s = Some d"
  shows "getSettings s =
         Inr (effectiveSettings d,
              s\<lparr>db := Some \<lparr>clipboardItems = clipboardItems d,
                             settings = Some (effectiveSettings d)\<rparr>\<rparr>)"
proof (cases "settings d")
  case None
  then show ?thesis using assms by (simp add: getSettings_def effectiveSettings_def)
next
  case (Some c)
  then have "d = \<lparr>clipboardItems = clipboardItems d, settings = Some (effectiveSettings d)\<rparr>"
    by (simp add: effectiveSettings_def)
  then have "s = s\<lparr>db := Some \<lparr>clipboardItems = clipboardItems d,
                             settings = Some (effectiveSettings d)\<rparr>\<rparr>"
    using assms by simp
  then show ?thesis using assms Some by (simp add: getSettings_def effectiveSettings_def)
qed

lemma cleanupOldItems_normalised:
  assumes "db s = Some d"
  shows "cleanupOldItems now s =
         cleanupOldItems now (s\<lparr>db := Some \<lparr>clipboardItems = clipboardItems d,
                             settings = Some (effectiveSettings d)\<rparr>\<rparr>)"
proof -
  let ?d1 = "\<lparr>clipboardItems = clipboardItems d, settings = Some (effectiveSettings d)\<rparr>"
  let ?s1 = "s\<lparr>db := Some ?d1\<rparr>"
  have "effectiveSettings ?d1 = effectiveSettings d" by (simp add: effectiveSettings_def)
  moreover have "getSettings ?s1 = Inr (effectiveSettings ?d1,
      ?s1\<lparr>db := Some \<lparr>clipboardItems = clipboardItems ?d1, settings = Some (effectiveSettings ?d1)\<rparr>\<rparr>)"
    by (rule getSettings_effective) simp
  ultimately have "getSettings ?s1 = Inr (effectiveSettings d, ?s1)" by simp
  then show ?thesis
    using assms getSettings_effective [OF assms] by (simp add: cleanupOldItems_def)
qed

lemma cleanupOldItems_shape:
  assumes "db s = Some d" and "settings d = Some st"
  shows "\<exists>P. cleanupOldItems now s =
           Inr (s\<lparr>db := Some (d\<lparr>clipboardItems := filter P (clipboardItems d)\<rparr>)\<rparr>)"
proof -
  let ?items = "getClipboardItems 1000 s"
  have run: "cleanupOldItems now s = Inr (agePass st now ?items (countPass st ?items s))"
    by (rule cleanupOldItems_eq [OF assms])
  obtain P where c: "countPass st ?items s = s\<lparr>db := Some (d\<lparr>clipboardItems := filter P (clipboardItems d)\<rparr>)\<rparr>"
  proof (cases "int (length ?items) > maxItems st")
    case True
    then show ?thesis
      using that deleteAll_db_shape [OF assms(1)] by (simp add: countPass_def)
  next
    case False
    have "s = s\<lparr>db := Some (d\<lparr>clipboardItems := filter (\<lambda>_. True) (clipboardItems d)\<rparr>)\<rparr>"
      using assms(1) by simp
    with False have "countPass st ?items s =
        s\<lparr>db := Some (d\<lparr>clipboardItems := filter (\<lambda>_. True) (clipboardItems d)\<rparr>)\<rparr>"
      by (simp add: countPass_def)
    then show ?thesis using that by blast
  qed
  let ?d2 = "d\<lparr>clipboardItems := filter P (clipboardItems d)\<rparr>"
  let ?old = "filter (\<lambda>item. timestamp item < cutoffDate st now \<and> \<not> isProtectedItem item) ?items"
  have "db (s\<lparr>db := Some ?d2\<rparr>) = Some ?d2" by simp
  from deleteAll_db_shape [OF this, of ?old]
  have a: "agePass st now ?items (s\<lparr>db := Some ?d2\<rparr>) =
          s\<lparr>db := Some (d\<lparr>clipboardItems :=
             filter (\<lambda>y. item_id y \<notin> item_id ` set ?old) (filter P (clipboardItems d))\<rparr>)\<rparr>"
    unfolding agePass_def by simp
  show ?thesis
    unfolding run c a filter_filter by blast
qed

lemma mergeItem_unprotected:
  "isProtectedItem (mergeItem e n) = isProtectedItem e"
  by (simp add: isProtectedItem_def mergeItem_def)

lemma withinWindow_merge:
  assumes "withinWindow s" and "e \<in> set (stored s)" and "content item = content e"
  shows "\<exists>s'. addClipboardItem now item s = Inr s' \<and> withinWindow s' \<and>
           item_id ` set (stored s') = item_id ` set (stored s)"
proof -
  have di: "distinct (map item_id (stored s))" and dc: "distinct (map content (stored s))"
    and un: "\<forall>x\<in>set (stored s). \<not> isProtectedItem x"
    using assms(1) by (simp_all add: withinWindow_def)
  have "inj_on content (set (stored s))" using dc by (simp add: distinct_map)
  then have uniq: "\<forall>x\<in>set (stored s). content x = content e \<longrightarrow> x = e"
    using assms(2) by (meson inj_onD)
  have win: "db s \<noteq> None \<longrightarrow> length (stored s) \<le> 1000"
    using assms(1) by (auto simp: withinWindow_def)
  obtain s' pre post where run: "addClipboardItem now item s = Inr s'"
    and xs: "stored s = pre @ e # post"
    and shape: "stored s' = pre @ mergeItem e item # post \<or> stored s' = mergeItem e item # pre @ post"
    and cfg: "map_option settings (db s') = map_option settings (db s)"
    using addClipboardItem_merge_shape [OF assms(2,3) di uniq win] by blast
  have ids: "distinct (map item_id (stored s'))" "item_id ` set (stored s') = item_id ` set (stored s)"
    using shape di unfolding xs by (auto simp: mergeItem_fields)
  have cs: "distinct (map content (stored s'))"
    using shape dc unfolding xs by (auto simp: mergeItem_fields)
  have un': "\<forall>x\<in>set (stored s'). \<not> isProtectedItem x"
    using shape un unfolding xs by (auto simp: mergeItem_unprotected)
  have len: "length (stored s') = length (stored s)"
    using shape unfolding xs by auto
  have bound: "case db s' of None \<Rightarrow> True
      | Some d \<Rightarrow> 0 \<le> maxItems (effectiveSettings d) \<and> maxItems (effectiveSettings d) < 1000 \<and>
          int (length (stored s')) \<le> maxItems (effectiveSettings d)"
  proof (cases "db s'")
    case None
    then show ?thesis by simp
  next
    case (Some d')
    with cfg obtain d where d: "db s = Some d" "settings d = settings d'" by (cases "db s") auto
    then have "effectiveSettings d' = effectiveSettings d" by (simp add: effectiveSettings_def)
    with assms(1) d(1) Some len show ?thesis by (simp add: withinWindow_def)
  qed
  from ids(1) cs un' bound have "withinWindow s'" by (simp add: withinWindow_def)
  with run ids(2) show ?thesis by blast
qed

lemma distinct_map_take:
  "distinct (map f ys) \<Longrightarrow> distinct (map f (take n ys))"
  by (metis distinct_take take_map)

lemma withinWindow_insert_localStorage:
  assumes "withinWindow s" and "db s = None"
      and "content item \<notin> content ` set (stored s)"
      and "item_id item \<notin> item_id ` set (stored s)" and "\<not> isProtectedItem item"
  shows "\<exists>s'. addClipboardItem now item s = Inr s' \<and> withinWindow s' \<and>
           item_id ` set (stored s') \<subseteq> insert (item_id item) (item_id ` set (stored s))"
proof -
  let ?xs = "localStorage s"
  let ?s' = "s\<lparr>localStorage := take 100 (item # ?xs)\<rparr>"
  have st: "stored s = ?xs" using assms(2) by (simp add: stored_def)
  have absent: "findClipboardItemByContent (content item) s = None"
    by (rule findClipboardItemByContent_absent) (use assms(3) in \<open>metis imageI\<close>)
  have run: "addClipboardItem now item s = Inr ?s'"
    using absent assms(2) by (simp add: addClipboardItem_def)
  have st': "stored ?s' = take 100 (item # ?xs)" using assms(2) by (simp add: stored_def)
  have sub: "set (take 100 (item # ?xs)) \<subseteq> insert item (set ?xs)"
    using set_take_subset [of 100 "item # ?xs"] by simp
  have "distinct (map item_id (item # ?xs))" "distinct (map content (item # ?xs))"
    using assms(1,3,4) st by (simp_all add: withinWindow_def)
  then have d: "distinct (map item_id (stored ?s'))" "distinct (map content (stored ?s'))"
    unfolding st' by (simp_all only: distinct_map_take)
  have un: "\<forall>x\<in>set (stored ?s'). \<not> isProtectedItem x"
    using assms(1,5) sub st unfolding st' by (auto simp: withinWindow_def)
  have "withinWindow ?s'"
    using d un assms(2) by (simp add: withinWindow_def)
  moreover have "item_id ` set (stored ?s') \<subseteq> insert (item_id item) (item_id ` set (stored s))"
    using sub unfolding st st' by auto
  ultimately show ?thesis using run by blast
qed

lemma withinWindow_insert_db:
  assumes "withinWindow s" and "db s = Some d"
      and "content item \<notin> content ` set (stored s)"
      and "item_id item \<notin> item_id ` set (stored s)" and "\<not> isProtectedItem item"
  shows "\<exists>s'. addClipboardItem now item s = Inr s' \<and> withinWindow s' \<and>
           item_id ` set (stored s') \<subseteq> insert (item_id item) (item_id ` set (stored s))"
proof -
  let ?xs = "clipboardItems d"
  let ?st = "effectiveSettings d"
  let ?d1 = "\<lparr>clipboardItems = ?xs @ [item], settings = Some ?st\<rparr>"
  let ?s1 = "s\<lparr>db := Some ?d1\<rparr>"
  have st: "stored s = ?xs" using assms(2) by (simp add: stored_def)
  have inv: "distinct (map item_id ?xs)" "distinct (map content ?xs)"
    "\<forall>x\<in>set ?xs. \<not> isProtectedItem x"
    "0 \<le> maxItems ?st" "maxItems ?st < 1000" "int (length ?xs) \<le> maxItems ?st"
    using assms(1,2) st by (simp_all add: withinWindow_def)
  have absent: "findClipboardItemByContent (content item) s = None"
    by (rule findClipboardItemByContent_absent) (use assms(3) in \<open>metis imageI\<close>)
  have add: "idb_add item ?xs = Inr (?xs @ [item])"
    using assms(4) st by (simp add: idb_add_def idb_keys_def)
  have "cleanupOldItems now (s\<lparr>db := Some (d\<lparr>clipboardItems := ?xs @ [item]\<rparr>)\<rparr>) =
        cleanupOldItems now ?s1"
    using cleanupOldItems_normalised [of "s\<lparr>db := Some (d\<lparr>clipboardItems := ?xs @ [item]\<rparr>)\<rparr>"
        "d\<lparr>clipboardItems := ?xs @ [item]\<rparr>" now]
    by (simp add: effectiveSettings_def)
  then have run: "addClipboardItem now item s = cleanupOldItems now ?s1"
    using absent assms(2) add by (simp add: addClipboardItem_def)
  have db1: "db ?s1 = Some ?d1" and set1: "settings ?d1 = Some ?st" by simp_all
  have st1: "stored ?s1 = ?xs @ [item]" by (simp add: stored_def)
  have d1: "distinct (map item_id (stored ?s1))" "distinct (map content (stored ?s1))"
    using inv(1,2) assms(3,4) st unfolding st1 by simp_all
  have l1: "length (stored ?s1) \<le> 1000" using inv(5,6) unfolding st1 by simp
  have u1: "\<forall>x\<in>set (stored ?s1). \<not> isProtectedItem x"
    using inv(3) assms(5) unfolding st1 by simp
  obtain s' where c: "cleanupOldItems now ?s1 = Inr s'"
    and len: "int (length (stored s')) \<le> maxItems ?st"
    using cleanup_total_bound [OF db1 set1 inv(4) d1(1) l1 u1] by blast
  obtain P where "cleanupOldItems now ?s1 =
      Inr (?s1\<lparr>db := Some (?d1\<lparr>clipboardItems := filter P (clipboardItems ?d1)\<rparr>)\<rparr>)"
    using cleanupOldItems_shape [OF db1 set1] by blast
  with c have s': "s' = ?s1\<lparr>db := Some (?d1\<lparr>clipboardItems := filter P (clipboardItems ?d1)\<rparr>)\<rparr>"
    by simp
  have st': "stored s' = filter P (?xs @ [item])" unfolding s' by (simp add: stored_def)
  have db': "db s' = Some \<lparr>clipboardItems = filter P (?xs @ [item]), settings = Some ?st\<rparr>"
    unfolding s' by simp
  have "distinct (map item_id (stored s'))" "distinct (map content (stored s'))"
    using d1 unfolding st' st1 by (simp_all only: distinct_map_filter)
  moreover have "\<forall>x\<in>set (stored s'). \<not> isProtectedItem x"
    using u1 unfolding st' st1 by simp
  ultimately have "withinWindow s'"
    using db' len inv(4,5) by (simp add: withinWindow_def effectiveSettings_def)
  moreover have "item_id ` set (stored s') \<subseteq> insert (item_id item) (item_id ` set (stored s))"
    unfolding st' st by auto
  ultimately show ?thesis using run c by auto
qed

lemma withinWindow_step:
  assumes "withinWindow s" and "item_id item \<notin> item_id ` set (stored s)"
      and "\<not> isProtectedItem item"
  shows "\<exists>s'. addClipboardItem now item s = Inr s' \<and> withinWindow s' \<and>
           item_id ` set (stored s') \<subseteq> insert (item_id item) (item_id ` set (stored s))"
proof (cases "content item \<in> content ` set (stored s)")
  case True
  then obtain e where "e \<in> set (stored s)" "content item = content e" by blast
  from withinWindow_merge [OF assms(1) this, of now] show ?thesis by blast
next
  case False
  show ?thesis
  proof (cases "db s")
    case None
    from withinWindow_insert_localStorage [OF assms(1) None False assms(2,3)] show ?thesis .
  next
    case (Some d)
    from withinWindow_insert_db [OF assms(1) Some False assms(2,3)] show ?thesis .
  qed
qed

lemma ingestAll_withinWindow:
  assumes "withinWindow s" and "\<forall>ev\<in>set evs. \<not> isProtectedItem (snd ev)"
      and "distinct (map (\<lambda>ev. item_id (snd ev)) evs)"
      and "item_id ` set (stored s) \<inter> (\<lambda>ev. item_id (snd ev)) ` set evs = {}"
  shows "withinWindow (ingestAll evs s)"
  using assms
proof (induction evs arbitrary: s)
  case Nil
  then show ?case by simp
next
  case (Cons ev evs)
  obtain now item where ev: "ev = (now, item)" by (cases ev)
  have mem: "item_id item \<in> (\<lambda>ev. item_id (snd ev)) ` set (ev # evs)"
    unfolding ev by simp
  have fresh: "item_id item \<notin> item_id ` set (stored s)"
    using Cons.prems(4) mem by blast
  have unp: "\<not> isProtectedItem item" using Cons.prems(2) unfolding ev by simp
  obtain s' where run: "addClipboardItem now item s = Inr s'" and w: "withinWindow s'"
    and ids: "item_id ` set (stored s') \<subseteq> insert (item_id item) (item_id ` set (stored s))"
    using withinWindow_step [OF Cons.prems(1) fresh unp, of now] by blast
  have rest: "\<forall>ev\<in>set evs. \<not> isProtectedItem (snd ev)"
    "distinct (map (\<lambda>ev. item_id (snd ev)) evs)"
    using Cons.prems(2,3) by simp_all
  let ?later = "(\<lambda>ev. item_id (snd ev)) ` set evs"
  have n1: "item_id item \<notin> ?later"
    using Cons.prems(3) unfolding ev by simp
  have "?later \<subseteq> (\<lambda>ev. item_id (snd ev)) ` set (ev # evs)"
    by (rule image_mono) (rule set_subset_Cons)
  then have n2: "item_id ` set (stored s) \<inter> ?later = {}"
    using Cons.prems(4) by blast
  have "item_id ` set (stored s') \<inter> ?later
        \<subseteq> insert (item_id item) (item_id ` set (stored s)) \<inter> ?later"
    using ids by (rule Int_mono) (rule subset_refl)
  also have "\<dots> = {}" using n1 n2 by simp
  finally have disj: "item_id ` set (stored s') \<inter> ?later = {}" by simp
  have "withinWindow (ingestAll evs s')"
    by (rule Cons.IH [OF w rest disj])
  then show ?case unfolding ev using run by simp
qed

text \<open>
  Claim C1 (deduplication invariant), as amended. Start from an empty store: the opened
  database with a configured maximum from 0 to 999 (the stored settings, or the defaults
  when none are stored), or the localStorage fallback. After any finite sequence of
  ingests of unprotected items with pairwise distinct ids, no two stored items have the
  same content. The bound on the maximum keeps the store inside the 1000 newest records
  that the duplicate look-up reads.
\<close>

theorem dedup_invariant_within_window:
  assumes "stored s0 = []"
      and "case db s0 of None \<Rightarrow> True
           | Some d \<Rightarrow> 0 \<le> maxItems (effectiveSettings d) \<and> maxItems (effectiveSettings d) < 1000"
      and "\<forall>ev\<in>set evs. \<not> isProtectedItem (snd ev)"
      and "distinct (map (\<lambda>ev. item_id (snd ev)) evs)"
  shows "distinct (map content (stored (ingestAll evs s0)))"
proof -
  have "withinWindow s0"
  proof (cases "db s0")
    case None
    with assms(1) show ?thesis by (simp add: withinWindow_def)
  next
    case (Some d)
    with assms(1,2) show ?thesis by (simp add: withinWindow_def)
  qed
  moreover have "item_id ` set (stored s0) \<inter> (\<lambda>ev. item_id (snd ev)) ` set evs = {}"
    using assms(1) by simp
  ultimately have "withinWindow (ingestAll evs s0)"
    using assms(3,4) by (intro ingestAll_withinWindow)
  then show ?thesis by (simp add: withinWindow_def)
qed


theorem dedup_invariant_within_window_witness:
  "stored emptyStore = [] \<and> maxItems (effectiveSettings \<lparr>clipboardItems = [], settings = None\<rparr>) = 500 \<and>
   map content (stored (ingestAll copyTwice emptyStore)) = [''x'', ''y''] \<and>
   map timestamp (stored (ingestAll copyTwice emptyStore)) = [3000, 2000] \<and>
   distinct (map content (stored (ingestAll copyTwice emptyStore)))"
proof -
  have h1: "stored emptyStore = []" by code_simp
  have m: "maxItems (effectiveSettings \<lparr>clipboardItems = [], settings = None\<rparr>) = 500"
    by code_simp
  have h2: "case db emptyStore of None \<Rightarrow> True
           | Some d \<Rightarrow> 0 \<le> maxItems (effectiveSettings d) \<and> maxItems (effectiveSettings d) < 1000"
    by code_simp
  have h3: "\<forall>ev\<in>set copyTwice. \<not> isProtectedItem (snd ev)" by code_simp
  have h4: "distinct (map (\<lambda>ev. item_id (snd ev)) copyTwice)" by code_simp
  have r: "map content (stored (ingestAll copyTwice emptyStore)) = [''x'', ''y'']"
    "map timestamp (stored (ingestAll copyTwice emptyStore)) = [3000, 2000]"
    by code_simp+
  from dedup_invariant_within_window [OF h1 h2 h3 h4] h1 m r show ?thesis by simp
qed

section \<open>Properties of the content classifier\<close>

lemma trim_head: "dropWhile js_space (trim s) = trim s"
proof -
  let ?t = "dropWhile js_space s"
  let ?u = "dropWhile js_space (rev ?t)"
  have split: "rev ?t = takeWhile js_space (rev ?t) @ ?u" by simp
  then have t: "?t = rev ?u @ rev (takeWhile js_space (rev ?t))"
    by (metis rev_append rev_rev_ident)
  show ?thesis
  proof (cases "rev ?u")
    case Nil
    show ?thesis unfolding trim_def Nil by simp
  next
    case (Cons c cs)
    with t have "?t = c # cs @ rev (takeWhile js_space (rev ?t))" by simp
    then have "hd ?t = c" "?t \<noteq> []" by (metis list.sel(1), metis list.distinct(1))
    then have "\<not> js_space c" using hd_dropWhile [of js_space s] by auto
    then show ?thesis unfolding trim_def Cons by simp
  qed
qed

lemma trim_idem: "trim (trim s) = trim s"
proof -
  have "dropWhile js_space (rev (trim s)) = rev (trim s)"
    by (simp add: trim_def)
  then show ?thesis
    unfolding trim_def [of "trim s"] trim_head by simp
qed

text \<open>
  Claim C10 (whitespace-trim invariance). The classifier reads its argument only through
  \<open>content.trim()\<close>, and trimming is idempotent: classifying a string and classifying
  its trimmed form give the same type, confidence and matched patterns.
\<close>

theorem analyzeContentType_trim:
  "analyzeContentType c = analyzeContentType (trim c)"
  unfolding analyzeContentType_def trim_idem ..

lemma url_facts:
  "trim ''https://example.com/path'' = ''https://example.com/path'' \<and>
   \<not> rx_test rx_openai_key ''https://example.com/path'' \<and>
   \<not> rx_test rx_stripe_pk ''https://example.com/path'' \<and>
   \<not> rx_test rx_stripe_sk ''https://example.com/path'' \<and>
   \<not> rx_test rx_github_token ''https://example.com/path'' \<and>
   codeScore ''https://example.com/path'' = 15 \<and>
   \<not> jsonLike ''https://example.com/path'' \<and>
   rx_test rx_url ''https://example.com/path''"
  by code_simp

lemma color_facts:
  "trim ''#FF5733'' = ''#FF5733'' \<and>
   \<not> rx_test rx_openai_key ''#FF5733'' \<and> \<not> rx_test rx_stripe_pk ''#FF5733'' \<and>
   \<not> rx_test rx_stripe_sk ''#FF5733'' \<and> \<not> rx_test rx_github_token ''#FF5733'' \<and>
   codeScore ''#FF5733'' = 15 \<and> \<not> jsonLike ''#FF5733'' \<and>
   \<not> rx_test rx_url ''#FF5733'' \<and> \<not> rx_test rx_email ''#FF5733'' \<and>
   \<not> rx_test rx_data_uri ''#FF5733'' \<and> \<not> rx_test rx_png ''#FF5733'' \<and>
   \<not> rx_test rx_jpeg ''#FF5733'' \<and> \<not> rx_test rx_gif ''#FF5733'' \<and>
   rx_test rx_color ''#FF5733''"
  by code_simp

lemma json_facts:
  "trim (''{'' @ [CHR 0x22] @ ''a'' @ [CHR 0x22] @ '':1}'') = ''{'' @ [CHR 0x22] @ ''a'' @ [CHR 0x22] @ '':1}'' \<and>
   \<not> rx_test rx_openai_key (''{'' @ [CHR 0x22] @ ''a'' @ [CHR 0x22] @ '':1}'') \<and>
   \<not> rx_test rx_stripe_pk (''{'' @ [CHR 0x22] @ ''a'' @ [CHR 0x22] @ '':1}'') \<and>
   \<not> rx_test rx_stripe_sk (''{'' @ [CHR 0x22] @ ''a'' @ [CHR 0x22] @ '':1}'') \<and>
   \<not> rx_test rx_github_token (''{'' @ [CHR 0x22] @ ''a'' @ [CHR 0x22] @ '':1}'') \<and>
   codeScore (''{'' @ [CHR 0x22] @ ''a'' @ [CHR 0x22] @ '':1}'') = 15 \<and>
   jsonLike (''{'' @ [CHR 0x22] @ ''a'' @ [CHR 0x22] @ '':1}'') \<and>
   JSON_parse_succeeds (''{'' @ [CHR 0x22] @ ''a'' @ [CHR 0x22] @ '':1}'')"
  by code_simp

text \<open>
  Claim C9 (classification scenarios). The URL, the hex colour and the JSON object are
  classified as \<open>url\<close> (95), \<open>color\<close> (95) and \<open>json\<close> (90). In each case exactly one
  code indicator fires (the assignment pattern on \<open>https:\<close>, the comment pattern on
  \<open>#\<close>, the brace pattern), so the code score is 15, below the 30 points that would
  make the input \<open>code\<close>.
\<close>

theorem classification_scenarios:
  "analyzeContentType ''https://example.com/path'' =
     \<lparr>content_type = ''url'', type_confidence = 95, patterns = [''HTTP/HTTPS URL format'']\<rparr> \<and>
   codeScore (trim ''https://example.com/path'') = 15 \<and>
   analyzeContentType ''#FF5733'' =
     \<lparr>content_type = ''color'', type_confidence = 95, patterns = [''Hex color code'']\<rparr> \<and>
   codeScore (trim ''#FF5733'') = 15 \<and>
   analyzeContentType (''{'' @ [CHR 0x22] @ ''a'' @ [CHR 0x22] @ '':1}'') =
     \<lparr>content_type = ''json'', type_confidence = 90, patterns = [''Valid JSON structure'']\<rparr> \<and>
   codeScore (trim (''{'' @ [CHR 0x22] @ ''a'' @ [CHR 0x22] @ '':1}'')) = 15"
proof -
  have u: "analyzeContentType ''https://example.com/path'' =
     \<lparr>content_type = ''url'', type_confidence = 95, patterns = [''HTTP/HTTPS URL format'']\<rparr>"
    by (simp add: analyzeContentType_def Let_def url_facts)
  have c: "analyzeContentType ''#FF5733'' =
     \<lparr>content_type = ''color'', type_confidence = 95, patterns = [''Hex color code'']\<rparr>"
    by (simp add: analyzeContentType_def Let_def color_facts)
  have j: "analyzeContentType (''{'' @ [CHR 0x22] @ ''a'' @ [CHR 0x22] @ '':1}'') =
     \<lparr>content_type = ''json'', type_confidence = 90, patterns = [''Valid JSON structure'']\<rparr>"
    unfolding analyzeContentType_def Let_def using json_facts by simp
  show ?thesis
    using u c j url_facts color_facts json_facts by simp
qed

lemma positions_later:
  "st \<in> set (positions p s) \<Longrightarrow> st = (p, s) \<or> fst st \<noteq> None"
proof (induction s arbitrary: p)
  case Nil
  then show ?case by simp
next
  case (Cons c cs)
  then show ?case by fastforce
qed

lemma positions_first: "positions p s = (p, s) # tl (positions p s)"
  by (cases s) simp_all

lemma rx_test_anchored:
  "rx_test (Seq Bol r) s = (rx_match r (None, s) \<noteq> [])"
proof -
  have later: "rx_match (Seq Bol r) st = []" if "st \<in> set (tl (positions None s))" for st
  proof -
    from that have "st \<in> set (positions None s)"
      by (metis list.set_sel(2) positions_first list.distinct(1))
    moreover have "st \<noteq> (None, s) \<or> fst st \<noteq> None"
    proof (cases s)
      case Nil
      with that show ?thesis by simp
    next
      case (Cons c cs)
      with that have "st \<in> set (positions (Some c) cs)" by simp
      then have "st = (Some c, cs) \<or> fst st \<noteq> None" by (rule positions_later)
      then show ?thesis by auto
    qed
    ultimately have "fst st \<noteq> None" using positions_later by blast
    then show ?thesis by (cases "fst st") (simp_all add: then_all_def)
  qed
  have "rx_test (Seq Bol r) s =
        (rx_match (Seq Bol r) (None, s) \<noteq> [] \<or>
         list_ex (\<lambda>st. rx_match (Seq Bol r) st \<noteq> []) (tl (positions None s)))"
    unfolding rx_test_def by (subst positions_first) simp
  also have "list_ex (\<lambda>st. rx_match (Seq Bol r) st \<noteq> []) (tl (positions None s)) = False"
    using later by (simp add: list_ex_iff)
  also have "rx_match (Seq Bol r) (None, s) = rx_match r (None, s)"
    by (simp add: then_all_def)
  finally show ?thesis by simp
qed

lemma code_confidence_range:
  "0 \<le> min 95 (codeScore t)" "min 95 (codeScore t) \<le> 100"
  by (simp_all add: codeScore_def)

lemma range_of_types:
  "content_type (analyzeContentType c) \<in>
     set [''api-key'', ''code'', ''json'', ''url'', ''email'', ''image'', ''color'', ''password'', ''text'']"
  "0 \<le> type_confidence (analyzeContentType c)"
  "type_confidence (analyzeContentType c) \<le> 100"
  by (simp_all add: analyzeContentType_def Let_def code_confidence_range)

lemma bounded_head:
  assumes "jsonLike t"
  shows "\<exists>cs. t = CHR ''{'' # cs \<or> t = CHR ''['' # cs"
proof -
  from assms have "startsWith t ''{'' \<or> startsWith t ''[''" by (auto simp: jsonLike_def)
  then have "take 1 t = ''{'' \<or> take 1 t = ''[''" by (simp add: startsWith_def)
  then show ?thesis by (cases t) auto
qed

lemma bounded_not_anchored:
  assumes "t = CHR ''{'' # cs \<or> t = CHR ''['' # cs"
  shows "\<not> rx_test rx_openai_key t" "\<not> rx_test rx_stripe_pk t" "\<not> rx_test rx_stripe_sk t"
    "\<not> rx_test rx_github_token t" "\<not> rx_test rx_url t" "\<not> rx_test rx_email t"
    "\<not> rx_test rx_data_uri t" "\<not> rx_test rx_png t" "\<not> rx_test rx_jpeg t"
    "\<not> rx_test rx_gif t" "\<not> rx_test rx_color t"
  using assms
  by (auto simp: rx_openai_key_def rx_stripe_pk_def rx_stripe_sk_def rx_github_token_def
      rx_url_def rx_email_def rx_data_uri_def rx_png_def rx_jpeg_def rx_gif_def rx_color_def
      rx_test_anchored then_all_def startsWith_def one_char_def in_class_def alnum_def)

lemma log2_13: "7 / 2 < log 2 (13::real)"
proof -
  have "(7::real) = log 2 (2 ^ 7)" using log_nat_power [of "2::real" 2 7] by simp
  also have "\<dots> < log 2 (13 ^ 2)" by (subst log_less_cancel_iff) simp_all
  also have "\<dots> = 2 * log 2 13" using log_nat_power [of "13::real" 2 2] by simp
  finally show ?thesis by simp
qed

lemma freq13: "map snd (char_freq ''{Ab1cdefghij}'') = replicate 13 1"
  by code_simp

lemma entropy13: "calculateEntropy ''{Ab1cdefghij}'' = log 2 13"
proof -
  have "calculateEntropy ''{Ab1cdefghij}'' = - (13 * (1 / 13 * log 2 (1 / 13)))"
    unfolding calculateEntropy_def freq13 by (simp add: numeral_eq_Suc)
  also have "\<dots> = - log 2 (1 / 13)" by simp
  also have "\<dots> = log 2 13" by (simp add: log_divide)
  finally show ?thesis .
qed

lemma braces_facts:
  "trim ''{Ab1cdefghij}'' = ''{Ab1cdefghij}'' \<and> jsonLike ''{Ab1cdefghij}'' \<and>
   \<not> JSON_parse_succeeds ''{Ab1cdefghij}'' \<and> codeScore ''{Ab1cdefghij}'' = 15 \<and>
   rx_test (In [Range CHR ''A'' CHR ''Z'']) ''{Ab1cdefghij}'' \<and>
   rx_test (In [Range CHR ''a'' CHR ''z'']) ''{Ab1cdefghij}'' \<and>
   rx_test (In [Digit]) ''{Ab1cdefghij}'' \<and> rx_test rx_symbol ''{Ab1cdefghij}''"
  by code_simp

lemma brackets_facts:
  "trim ''[not json]'' = ''[not json]'' \<and> jsonLike ''[not json]'' \<and>
   \<not> JSON_parse_succeeds ''[not json]'' \<and> codeScore ''[not json]'' = 0 \<and>
   \<not> rx_test (In [Range CHR ''A'' CHR ''Z'']) ''[not json]''"
  by code_simp

lemma after_failed_parse:
  assumes "jsonLike (trim c)" and "\<not> JSON_parse_succeeds (trim c)" and "codeScore (trim c) < 30"
  shows "analyzeContentType c =
           (if calculateEntropy (trim c) > 3.5 \<and> length (trim c) \<ge> 8 \<and> length (trim c) \<le> 128 \<and>
               rx_test (In [Range CHR ''A'' CHR ''Z'']) (trim c) \<and>
               rx_test (In [Range CHR ''a'' CHR ''z'']) (trim c) \<and>
               rx_test (In [Digit]) (trim c) \<and> rx_test rx_symbol (trim c)
            then \<lparr>content_type = ''password'', type_confidence = 70,
                  patterns = [''High entropy with mixed character types'']\<rparr>
            else \<lparr>content_type = ''text'', type_confidence = 60,
                  patterns = [''No specific patterns detected'']\<rparr>)"
proof -
  obtain cs where "trim c = CHR ''{'' # cs \<or> trim c = CHR ''['' # cs"
    using bounded_head [OF assms(1)] by blast
  note no = bounded_not_anchored [OF this]
  show ?thesis
    unfolding analyzeContentType_def Let_def using assms(2,3) no by simp
qed

text \<open>
  Claim C4 (classifier totality and range), as amended. The classifier is a total
  function: a failing \<open>JSON.parse\<close> is one of its branches. For every content string it
  returns a type of the fixed enumeration and an integer confidence between 0 and 100.
  When \<open>JSON.parse\<close> is tried (content bounded by braces or brackets, code score below
  30) and fails, classification continues with the later rules and ends in the password
  rule (confidence 70) or in the text fallback (confidence 60).
\<close>

theorem analyzeContentType_total_range:
  "content_type (analyzeContentType c) \<in>
     set [''api-key'', ''code'', ''json'', ''url'', ''email'', ''image'', ''color'',
          ''password'', ''text''] \<and>
   0 \<le> type_confidence (analyzeContentType c) \<and> type_confidence (analyzeContentType c) \<le> 100 \<and>
   (jsonLike (trim c) \<and> \<not> JSON_parse_succeeds (trim c) \<and> codeScore (trim c) < 30 \<longrightarrow>
      analyzeContentType c =
        \<lparr>content_type = ''password'', type_confidence = 70,
         patterns = [''High entropy with mixed character types'']\<rparr> \<or>
      analyzeContentType c =
        \<lparr>content_type = ''text'', type_confidence = 60,
         patterns = [''No specific patterns detected'']\<rparr>)"
proof -
  have "analyzeContentType c =
        \<lparr>content_type = ''password'', type_confidence = 70,
         patterns = [''High entropy with mixed character types'']\<rparr> \<or>
      analyzeContentType c =
        \<lparr>content_type = ''text'', type_confidence = 60,
         patterns = [''No specific patterns detected'']\<rparr>"
    if "jsonLike (trim c)" "\<not> JSON_parse_succeeds (trim c)" "codeScore (trim c) < 30"
    unfolding after_failed_parse [OF that] by simp
  then show ?thesis using range_of_types [of c] by blast
qed

theorem analyzeContentType_total_range_witness:
  "jsonLike (trim ''[not json]'') \<and> \<not> JSON_parse_succeeds (trim ''[not json]'') \<and>
   codeScore (trim ''[not json]'') < 30 \<and>
   analyzeContentType ''[not json]'' =
     \<lparr>content_type = ''text'', type_confidence = 60, patterns = [''No specific patterns detected'']\<rparr>"
proof -
  have h: "jsonLike (trim ''[not json]'')" "\<not> JSON_parse_succeeds (trim ''[not json]'')"
    "codeScore (trim ''[not json]'') < 30"
    using brackets_facts by simp_all
  have "analyzeContentType ''[not json]'' \<noteq>
        \<lparr>content_type = ''password'', type_confidence = 70,
         patterns = [''High entropy with mixed character types'']\<rparr>"
    unfolding after_failed_parse [OF h] using brackets_facts by simp
  with analyzeContentType_total_range [of "''[not json]''"] h show ?thesis by blast
qed

theorem failed_parse_counterexample:
  "jsonLike (trim ''{Ab1cdefghij}'') \<and> \<not> JSON_parse_succeeds (trim ''{Ab1cdefghij}'') \<and>
   analyzeContentType ''{Ab1cdefghij}'' =
     \<lparr>content_type = ''password'', type_confidence = 70,
      patterns = [''High entropy with mixed character types'']\<rparr>"
proof -
  have h: "jsonLike (trim ''{Ab1cdefghij}'')" "\<not> JSON_parse_succeeds (trim ''{Ab1cdefghij}'')"
    "codeScore (trim ''{Ab1cdefghij}'') < 30"
    using braces_facts by simp_all
  have e: "calculateEntropy ''{Ab1cdefghij}'' > 3.5"
    unfolding entropy13 using log2_13 by simp
  have "analyzeContentType ''{Ab1cdefghij}'' =
     \<lparr>content_type = ''password'', type_confidence = 70,
      patterns = [''High entropy with mixed character types'']\<rparr>"
    unfolding after_failed_parse [OF h] using braces_facts e by simp
  with h show ?thesis by simp
qed

section \<open>Properties of the enhanced detector\<close>

lemma prompt_facts:
  "detectSourcePlatform ''$ ls'' =
     \<lparr>platform = ''Terminal'', platform_confidence = 80, indicators = [''Command prompt prefix'']\<rparr>"
  by code_simp

lemma plain_facts:
  "detectSourcePlatform ''hello'' =
     \<lparr>platform = ''Unknown'', platform_confidence = 20, indicators = []\<rparr>"
  by code_simp

text \<open>
  Claim C5 (decision policy of the enhanced detector), as amended. For every content and
  detected application: (1) when the platform heuristic's confidence is above 70, its
  label and confidence are returned verbatim; (2) otherwise the detected application is
  returned with confidence 60 when it is non-empty and is neither \<open>System\<close>, the label
  that stands for a failed detection, nor \<open>Finder\<close>; (3) otherwise the heuristic's label
  is returned with confidence \<open>max 30\<close> of the heuristic's confidence. In every case the
  content type is the classifier's.
\<close>

theorem enhancedDetection_policy:
  "(platform_confidence (detectSourcePlatform c) > 70 \<longrightarrow>
      sourceApp (enhancedDetection c app) = platform (detectSourcePlatform c) \<and>
      confidence (enhancedDetection c app) = platform_confidence (detectSourcePlatform c)) \<and>
   (\<not> platform_confidence (detectSourcePlatform c) > 70 \<and>
    app \<noteq> [] \<and> app \<noteq> ''System'' \<and> app \<noteq> ''Finder'' \<longrightarrow>
      sourceApp (enhancedDetection c app) = app \<and> confidence (enhancedDetection c app) = 60) \<and>
   (\<not> platform_confidence (detectSourcePlatform c) > 70 \<and>
    (app = [] \<or> app = ''System'' \<or> app = ''Finder'') \<longrightarrow>
      sourceApp (enhancedDetection c app) = platform (detectSourcePlatform c) \<and>
      confidence (enhancedDetection c app) = max 30 (platform_confidence (detectSourcePlatform c))) \<and>
   contentType (enhancedDetection c app) = content_type (analyzeContentType c)"
  by (simp add: enhancedDetection_def Let_def)

theorem enhancedDetection_policy_witness:
  "platform_confidence (detectSourcePlatform ''$ ls'') = 80 \<and>
   sourceApp (enhancedDetection ''$ ls'' ''Chrome'') = ''Terminal'' \<and>
   confidence (enhancedDetection ''$ ls'' ''Chrome'') = 80 \<and>
   platform_confidence (detectSourcePlatform ''hello'') = 20 \<and>
   sourceApp (enhancedDetection ''hello'' ''Chrome'') = ''Chrome'' \<and>
   confidence (enhancedDetection ''hello'' ''Chrome'') = 60 \<and>
   sourceApp (enhancedDetection ''hello'' ''Finder'') = ''Unknown'' \<and>
   confidence (enhancedDetection ''hello'' ''Finder'') = 30"
proof -
  have a: "platform_confidence (detectSourcePlatform ''$ ls'') > 70"
    "platform_confidence (detectSourcePlatform ''$ ls'') = 80"
    "platform (detectSourcePlatform ''$ ls'') = ''Terminal''"
    by (simp_all add: prompt_facts)
  have b: "\<not> platform_confidence (detectSourcePlatform ''hello'') > 70"
    "platform_confidence (detectSourcePlatform ''hello'') = 20"
    "platform (detectSourcePlatform ''hello'') = ''Unknown''"
    by (simp_all add: plain_facts)
  have c: "''Chrome'' \<noteq> []" "''Chrome'' \<noteq> ''System''" "''Chrome'' \<noteq> ''Finder''" by simp_all
  from enhancedDetection_policy [of "''$ ls''" "''Chrome''"] a
  have 1: "sourceApp (enhancedDetection ''$ ls'' ''Chrome'') = ''Terminal''"
    "confidence (enhancedDetection ''$ ls'' ''Chrome'') = 80" by simp_all
  from enhancedDetection_policy [of "''hello''" "''Chrome''"] b c
  have 2: "sourceApp (enhancedDetection ''hello'' ''Chrome'') = ''Chrome''"
    "confidence (enhancedDetection ''hello'' ''Chrome'') = 60" by simp_all
  from enhancedDetection_policy [of "''hello''" "''Finder''"] b
  have 3: "sourceApp (enhancedDetection ''hello'' ''Finder'') = ''Unknown''"
    "confidence (enhancedDetection ''hello'' ''Finder'') = 30" by simp_all
  from a(2) b(2) 1 2 3 show ?thesis by simp
qed

theorem enhancedDetection_counterexample:
  "platform_confidence (detectSourcePlatform ''hello'') = 20 \<and>
   ''System'' \<noteq> [] \<and> \<not> isOwnProcess ''System'' \<and> ''System'' \<noteq> ''Finder'' \<and>
   sourceApp (enhancedDetection ''hello'' ''System'') = ''Unknown'' \<and>
   confidence (enhancedDetection ''hello'' ''System'') = 30 \<and>
   isOwnProcess ''Electron'' \<and>
   sourceApp (enhancedDetection ''hello'' ''Electron'') = ''Electron'' \<and>
   confidence (enhancedDetection ''hello'' ''Electron'') = 60"
  by (simp add: enhancedDetection_def Let_def plain_facts isOwnProcess_def)

section \<open>Properties of the clipboard poller\<close>

lemma hash_facts:
  "contentHash ''abc'' = ''3abcabc'' \<and> contentHash ''abc '' = ''4abc abc '' \<and>
   contentHash ''xyz'' = ''3xyzxyz'' \<and>
   contentHash ''hello'' = ''5hellohello'' \<and>
   trim ''abc'' = ''abc'' \<and> trim ''abc '' = ''abc'' \<and> trim ''xyz'' = ''xyz'' \<and>
   trim ''hello'' = ''hello'' \<and> trim [] = []"
  by code_simp

lemma pollClipboard_skip:
  assumes "readClipboard m = Some c" and "c \<noteq> lastClipboardContent m"
    and "contentHash c = lastClipboardHash m \<or> trim c = trim (lastClipboardContent m) \<or>
         now - lastProcessedTime m \<le> 500"
  shows "pollClipboard now app sentAt m = (m, None)"
  using assms by (auto simp: pollClipboard_def)

lemma pollClipboard_suppressed:
  assumes "readClipboard m = Some c" and "c \<noteq> lastClipboardContent m"
    and "contentHash c \<noteq> lastClipboardHash m" and "trim c \<noteq> trim (lastClipboardContent m)"
    and "now - lastProcessedTime m > 500" and "isInternalCopy m"
  shows "pollClipboard now app sentAt m = (m\<lparr>lastClipboardContent := c\<rparr>, None)"
  using assms by (simp add: pollClipboard_def)

lemma pollClipboard_capture:
  assumes "readClipboard m = Some c" and "c \<noteq> lastClipboardContent m"
    and "contentHash c \<noteq> lastClipboardHash m" and "trim c \<noteq> trim (lastClipboardContent m)"
    and "now - lastProcessedTime m > 500" and "\<not> isInternalCopy m"
  shows "fst (pollClipboard now app sentAt m) =
           m\<lparr>lastClipboardContent := c, lastClipboardHash := contentHash c,
             lastProcessedTime := now\<rparr>"
    and "map_option data_content (snd (pollClipboard now app sentAt m)) =
           (if overlayOpen m then Some c else None)"
    and "map_option data_timestamp (snd (pollClipboard now app sentAt m)) =
           (if overlayOpen m then Some sentAt else None)"
  using assms by (simp_all add: pollClipboard_def Let_def)


lemma first_capture:
  "fst (pollClipboard 1000 (Some ''Chrome'') 1000 (externalCopy ''abc'' startedMain)) = capturedMain \<and>
   map_option data_content
     (snd (pollClipboard 1000 (Some ''Chrome'') 1000 (externalCopy ''abc'' startedMain))) = Some ''abc''"
proof -
  let ?m = "externalCopy ''abc'' startedMain"
  have r: "readClipboard ?m = Some ''abc''" "''abc'' \<noteq> lastClipboardContent ?m"
    "contentHash ''abc'' \<noteq> lastClipboardHash ?m" "trim ''abc'' \<noteq> trim (lastClipboardContent ?m)"
    "1000 - lastProcessedTime ?m > 500" "\<not> isInternalCopy ?m" "overlayOpen ?m"
    by (simp_all add: readClipboard_def externalCopy_def startedMain_def hash_facts)
  from pollClipboard_capture(1,2) [OF r(1-6), of "Some ''Chrome''" 1000] r(7)
  show ?thesis
    by (simp add: externalCopy_def startedMain_def capturedMain_def hash_facts)
qed

text \<open>
  Claim C6 (debounce of the poller), as amended. On a tick whose content \<open>c\<close> differs from
  the last-seen content, the change is skipped, the state staying as it is, as soon as one
  of three tests holds: the fingerprint of \<open>c\<close> equals the last processed fingerprint, or
  \<open>c\<close> trimmed equals the last-seen content trimmed, or at most 500 ms have passed since
  the last processed change. The change proceeds to the suppression check only when all
  three fail; then, under suppression, the last-seen content alone is updated and nothing is
  sent, and otherwise the last-seen content, the fingerprint and the time are updated and
  the change is sent to the overlay window, provided that window is open.
\<close>

theorem pollClipboard_debounce:
  assumes "readClipboard m = Some c" and "c \<noteq> lastClipboardContent m"
  shows
    "(contentHash c = lastClipboardHash m \<or> trim c = trim (lastClipboardContent m) \<or>
      now - lastProcessedTime m \<le> 500 \<longrightarrow>
        pollClipboard now app sentAt m = (m, None)) \<and>
     (contentHash c \<noteq> lastClipboardHash m \<and> trim c \<noteq> trim (lastClipboardContent m) \<and>
      now - lastProcessedTime m > 500 \<and> isInternalCopy m \<longrightarrow>
        pollClipboard now app sentAt m = (m\<lparr>lastClipboardContent := c\<rparr>, None)) \<and>
     (contentHash c \<noteq> lastClipboardHash m \<and> trim c \<noteq> trim (lastClipboardContent m) \<and>
      now - lastProcessedTime m > 500 \<and> \<not> isInternalCopy m \<longrightarrow>
        fst (pollClipboard now app sentAt m) =
          m\<lparr>lastClipboardContent := c, lastClipboardHash := contentHash c,
            lastProcessedTime := now\<rparr> \<and>
        map_option data_content (snd (pollClipboard now app sentAt m)) =
          (if overlayOpen m then Some c else None))"
  using pollClipboard_skip [OF assms, of now app sentAt]
    pollClipboard_suppressed [OF assms, of now app sentAt]
    pollClipboard_capture(1,2) [OF assms, of now app sentAt]
  by blast

theorem pollClipboard_debounce_witness:
  "readClipboard (externalCopy ''xyz'' capturedMain) = Some ''xyz'' \<and>
   pollClipboard 1400 (Some ''Chrome'') 1400 (externalCopy ''xyz'' capturedMain) =
     (externalCopy ''xyz'' capturedMain, None) \<and>
   pollClipboard 2000 (Some ''Chrome'') 2000 (setClipboardText ''xyz'' capturedMain) =
     ((setClipboardText ''xyz'' capturedMain)\<lparr>lastClipboardContent := ''xyz''\<rparr>, None) \<and>
   fst (pollClipboard 2000 (Some ''Chrome'') 2000 (externalCopy ''xyz'' capturedMain)) =
     (externalCopy ''xyz'' capturedMain)
       \<lparr>lastClipboardContent := ''xyz'', lastClipboardHash := ''3xyzxyz'', lastProcessedTime := 2000\<rparr> \<and>
   map_option data_content
     (snd (pollClipboard 2000 (Some ''Chrome'') 2000 (externalCopy ''xyz'' capturedMain))) = Some ''xyz''"
proof -
  let ?e = "externalCopy ''xyz'' capturedMain"
  let ?s = "setClipboardText ''xyz'' capturedMain"
  have e: "readClipboard ?e = Some ''xyz''" "''xyz'' \<noteq> lastClipboardContent ?e"
    "contentHash ''xyz'' \<noteq> lastClipboardHash ?e" "trim ''xyz'' \<noteq> trim (lastClipboardContent ?e)"
    "lastProcessedTime ?e = 1000" "\<not> isInternalCopy ?e" "overlayOpen ?e"
    by (simp_all add: readClipboard_def externalCopy_def capturedMain_def hash_facts)
  have s: "readClipboard ?s = Some ''xyz''" "''xyz'' \<noteq> lastClipboardContent ?s"
    "contentHash ''xyz'' \<noteq> lastClipboardHash ?s" "trim ''xyz'' \<noteq> trim (lastClipboardContent ?s)"
    "lastProcessedTime ?s = 1000" "isInternalCopy ?s"
    by (simp_all add: readClipboard_def setClipboardText_def capturedMain_def hash_facts)
  have h: "contentHash ''xyz'' = ''3xyzxyz''" by (simp add: hash_facts)
  from pollClipboard_debounce [OF e(1,2), of 1400 "Some ''Chrome''" 1400] e(5)
  have 1: "pollClipboard 1400 (Some ''Chrome'') 1400 ?e = (?e, None)" by simp
  from pollClipboard_debounce [OF s(1,2), of 2000 "Some ''Chrome''" 2000] s(3-6)
  have 2: "pollClipboard 2000 (Some ''Chrome'') 2000 ?s = (?s\<lparr>lastClipboardContent := ''xyz''\<rparr>, None)"
    by simp
  from pollClipboard_debounce [OF e(1,2), of 2000 "Some ''Chrome''" 2000] e(3-7) h
  have 3: "fst (pollClipboard 2000 (Some ''Chrome'') 2000 ?e) =
      ?e\<lparr>lastClipboardContent := ''xyz'', lastClipboardHash := ''3xyzxyz'', lastProcessedTime := 2000\<rparr>"
    "map_option data_content (snd (pollClipboard 2000 (Some ''Chrome'') 2000 ?e)) = Some ''xyz''"
    by simp_all
  from e(1) 1 2 3 show ?thesis by simp
qed

theorem pollClipboard_debounce_counterexample:
  "fst (pollClipboard 1000 (Some ''Chrome'') 1000 (externalCopy ''abc'' startedMain)) = capturedMain \<and>
   readClipboard (externalCopy ''abc '' capturedMain) = Some ''abc '' \<and>
   ''abc '' \<noteq> lastClipboardContent (externalCopy ''abc '' capturedMain) \<and>
   contentHash ''abc '' \<noteq> lastClipboardHash (externalCopy ''abc '' capturedMain) \<and>
   2000 - lastProcessedTime (externalCopy ''abc '' capturedMain) = 1000 \<and>
   \<not> isInternalCopy (externalCopy ''abc '' capturedMain) \<and>
   overlayOpen (externalCopy ''abc '' capturedMain) \<and>
   pollClipboard 2000 (Some ''Chrome'') 2000 (externalCopy ''abc '' capturedMain) =
     (externalCopy ''abc '' capturedMain, None) \<and>
   readClipboard (externalCopy ''xyz'' capturedMain) = Some ''xyz'' \<and>
   contentHash ''xyz'' \<noteq> lastClipboardHash (externalCopy ''xyz'' capturedMain) \<and>
   trim ''xyz'' \<noteq> trim (lastClipboardContent (externalCopy ''xyz'' capturedMain)) \<and>
   \<not> isInternalCopy (externalCopy ''xyz'' capturedMain) \<and>
   overlayOpen (externalCopy ''xyz'' capturedMain) \<and>
   pollClipboard 1400 (Some ''Chrome'') 1400 (externalCopy ''xyz'' capturedMain) =
     (externalCopy ''xyz'' capturedMain, None)"
proof -
  let ?a = "externalCopy ''abc '' capturedMain"
  let ?e = "externalCopy ''xyz'' capturedMain"
  have a: "readClipboard ?a = Some ''abc ''" "''abc '' \<noteq> lastClipboardContent ?a"
    "contentHash ''abc '' \<noteq> lastClipboardHash ?a" "trim ''abc '' = trim (lastClipboardContent ?a)"
    "2000 - lastProcessedTime ?a = 1000" "\<not> isInternalCopy ?a" "overlayOpen ?a"
    by (simp_all add: readClipboard_def externalCopy_def capturedMain_def hash_facts)
  have e: "readClipboard ?e = Some ''xyz''" "''xyz'' \<noteq> lastClipboardContent ?e"
    "contentHash ''xyz'' \<noteq> lastClipboardHash ?e" "trim ''xyz'' \<noteq> trim (lastClipboardContent ?e)"
    "1400 - lastProcessedTime ?e \<le> 500" "\<not> isInternalCopy ?e" "overlayOpen ?e"
    by (simp_all add: readClipboard_def externalCopy_def capturedMain_def hash_facts)
  have 1: "pollClipboard 2000 (Some ''Chrome'') 2000 ?a = (?a, None)"
    by (rule pollClipboard_skip [OF a(1,2)]) (simp add: a(4))
  have 2: "pollClipboard 1400 (Some ''Chrome'') 1400 ?e = (?e, None)"
    by (rule pollClipboard_skip [OF e(1,2)]) (simp add: e(5))
  from first_capture a e 1 2 show ?thesis by simp
qed

lemma self_write_confirmed:
  "pollClipboard 2000 (Some ''Chrome'') 2000 (setClipboardText ''xyz'' capturedMain) =
     (confirmedMain, None)"
proof -
  let ?s = "setClipboardText ''xyz'' capturedMain"
  have s: "readClipboard ?s = Some ''xyz''" "''xyz'' \<noteq> lastClipboardContent ?s"
    "contentHash ''xyz'' \<noteq> lastClipboardHash ?s" "trim ''xyz'' \<noteq> trim (lastClipboardContent ?s)"
    "2000 - lastProcessedTime ?s > 500" "isInternalCopy ?s"
    by (simp_all add: readClipboard_def setClipboardText_def capturedMain_def hash_facts)
  from pollClipboard_suppressed [OF s, of "Some ''Chrome''" 2000]
  show ?thesis by (simp add: setClipboardText_def capturedMain_def confirmedMain_def)
qed

section \<open>Properties of the localStorage fallback\<close>

lemma fallback_fresh:
  assumes "db s = None" and "\<forall>x\<in>set (localStorage s). content x \<noteq> content item"
  shows "addClipboardItem now item s = Inr (s\<lparr>localStorage := take 100 (item # localStorage s)\<rparr>)"
proof -
  have "find (\<lambda>i. content i = content item) (localStorage s) = None"
    using assms(2) by (simp add: find_None_iff)
  with assms(1) show ?thesis
    by (simp add: addClipboardItem_def findClipboardItemByContent_def)
qed

lemma content_seriesItem: "content (seriesItem k) = replicate (Suc k) CHR ''a''"
  by (simp add: seriesItem_def capturedItem_def)

lemma content_seriesItem_inj: "content (seriesItem j) = content (seriesItem k) \<longleftrightarrow> j = k"
proof
  assume "content (seriesItem j) = content (seriesItem k)"
  then have "length (replicate (Suc j) CHR ''a'') = length (replicate (Suc k) CHR ''a'')"
    by (simp only: content_seriesItem)
  then show "j = k" by simp
qed simp

lemma content_pinnedNote: "content pinnedNote \<noteq> content (seriesItem k)"
proof
  assume "content pinnedNote = content (seriesItem k)"
  then have "hd (content pinnedNote) = hd (content (seriesItem k))" by simp
  then show False by (simp add: content_seriesItem pinnedNote_def capturedItem_def)
qed

lemma fallback_ingest:
  "n \<le> 99 \<Longrightarrow>
   ingestAll (laterEvents n) pinnedFallback =
     \<lparr>db = None, localStorage = map seriesItem (rev [6..<6 + n]) @ [pinnedNote]\<rparr>"
proof (induction n)
  case 0
  then show ?case by (simp add: laterEvents_def pinnedFallback_def)
next
  case (Suc n)
  let ?s = "\<lparr>db = None, localStorage = map seriesItem (rev [6..<6 + n]) @ [pinnedNote]\<rparr>"
  have u: "[6..<Suc (6 + n)] = [6..<6 + n] @ [6 + n]" by (rule upt_Suc_append) simp
  then have ev: "laterEvents (Suc n) = laterEvents n @ [(2000, seriesItem (6 + n))]"
    unfolding laterEvents_def add_Suc_right by simp
  have app: "ingestAll (xs @ ys) s = ingestAll ys (ingestAll xs s)" for xs ys s
    by (induction xs arbitrary: s) (auto split: sum.splits)
  have fresh: "\<forall>x\<in>set (localStorage ?s). content x \<noteq> content (seriesItem (6 + n))"
    using content_pinnedNote [of "6 + n"] by (auto simp: content_seriesItem_inj)
  have len: "length (seriesItem (6 + n) # localStorage ?s) \<le> 100" using Suc.prems by simp
  have "addClipboardItem 2000 (seriesItem (6 + n)) ?s =
          Inr (?s\<lparr>localStorage := take 100 (seriesItem (6 + n) # localStorage ?s)\<rparr>)"
    by (rule fallback_fresh [OF _ fresh]) simp
  also have "take 100 (seriesItem (6 + n) # localStorage ?s) = seriesItem (6 + n) # localStorage ?s"
    using len by (intro take_all) simp
  finally have a: "addClipboardItem 2000 (seriesItem (6 + n)) ?s =
      Inr \<lparr>db = None,
           localStorage = seriesItem (6 + n) # map seriesItem (rev [6..<6 + n]) @ [pinnedNote]\<rparr>"
    by simp
  have r: "map seriesItem (rev [6..<6 + Suc n]) =
      seriesItem (6 + n) # map seriesItem (rev [6..<6 + n])"
    unfolding add_Suc_right u by simp
  from Suc have "ingestAll (laterEvents n) pinnedFallback = ?s" by simp
  then have "ingestAll (laterEvents (Suc n)) pinnedFallback =
      ingestAll [(2000, seriesItem (6 + n))] ?s"
    by (simp only: ev app)
  also have "\<dots> = \<lparr>db = None,
      localStorage = seriesItem (6 + n) # map seriesItem (rev [6..<6 + n]) @ [pinnedNote]\<rparr>"
    using a by simp
  finally show ?case unfolding r by simp
qed

text \<open>
  Claim C2 (protection invariant). In the localStorage fallback the eviction that follows an
  insert is \<open>items.splice(100)\<close>, which tests no protection: the pinned note is in the
  store after 99 further captures, and the hundredth insert drops it.
\<close>

theorem fallback_insert_drops_protected:
  "isProtectedItem pinnedNote \<and>
   db (ingestAll (laterEvents 99) pinnedFallback) = None \<and>
   stored (ingestAll (laterEvents 99) pinnedFallback) =
     map seriesItem (rev [6..<105]) @ [pinnedNote] \<and>
   pinnedNote \<in> set (stored (ingestAll (laterEvents 99) pinnedFallback)) \<and>
   addClipboardItem 2000 (seriesItem 105) (ingestAll (laterEvents 99) pinnedFallback) =
     Inr \<lparr>db = None, localStorage = map seriesItem (rev [6..<106])\<rparr> \<and>
   pinnedNote \<notin> set (map seriesItem (rev [6..<106]))"
proof -
  let ?s = "\<lparr>db = None, localStorage = map seriesItem (rev [6..<105]) @ [pinnedNote]\<rparr>"
  have p: "isProtectedItem pinnedNote"
    by (simp add: isProtectedItem_def pinnedNote_def)
  have s: "ingestAll (laterEvents 99) pinnedFallback = ?s"
    using fallback_ingest [of 99] by simp
  have fresh: "\<forall>x\<in>set (localStorage ?s). content x \<noteq> content (seriesItem 105)"
    using content_pinnedNote [of 105] by (auto simp: content_seriesItem_inj)
  have "addClipboardItem 2000 (seriesItem 105) ?s =
          Inr (?s\<lparr>localStorage := take 100 (seriesItem 105 # localStorage ?s)\<rparr>)"
    by (rule fallback_fresh [OF _ fresh]) simp
  also have "take 100 (seriesItem 105 # localStorage ?s) =
      seriesItem 105 # map seriesItem (rev [6..<105])" by simp
  also have "seriesItem 105 # map seriesItem (rev [6..<105]) = map seriesItem (rev [6..<106])"
  proof -
    have "[6..<106] = [6..<105] @ [105::nat]" by (simp add: upt_rec_numeral)
    then show ?thesis by simp
  qed
  finally have a: "addClipboardItem 2000 (seriesItem 105) ?s =
      Inr \<lparr>db = None, localStorage = map seriesItem (rev [6..<106])\<rparr>" by simp
  have n: "pinnedNote \<notin> set (map seriesItem (rev [6..<106]))"
  proof
    assume "pinnedNote \<in> set (map seriesItem (rev [6..<106]))"
    then obtain k where "pinnedNote = seriesItem k" by auto
    then have "content pinnedNote = content (seriesItem k)" by simp
    with content_pinnedNote show False by blast
  qed
  from p s a n show ?thesis by (simp add: stored_def)
qed

section \<open>Properties of the self-write suppression\<close>









end
